theory Spec2Isabelle
  imports Main "HOL-Library.Multiset"
begin

section \<open>Display pages\<close>

text \<open>
  Modelled from the spec: the headers that declare \<^verbatim>\<open>RBDisplayPage\<close>, \<^verbatim>\<open>RBDisplayPageGroup\<close>,
  \<^verbatim>\<open>RBSource\<close> and the playlist sources are not among the sources.  The spec: a page
  carries a name, a visibility flag and, when it is a group, a category; a page is a source
  or a group.  The code tests \<^verbatim>\<open>RB_IS_SOURCE\<close> and \<^verbatim>\<open>RB_IS_DISPLAY_PAGE_GROUP\<close> separately
  and speaks of ``a source or something else'', so a page that is neither is kept; auto and
  static playlists are kinds of source.

  An \<^verbatim>\<open>RBDisplayPage *\<close> is an address or \<^verbatim>\<open>NULL\<close> (\<open>None\<close>).  The page objects live in
  a heap indexed by address.  The GObject type of a page never changes; its \<^verbatim>\<open>name\<close> and
  \<^verbatim>\<open>visibility\<close> properties do.  A group carries its \<^verbatim>\<open>category\<close>, a C enum and hence an
  integer.
\<close>

type_synonym page_ref = nat
type_synonym page_ptr = "page_ref option"

datatype source_type = AutoPlaylistSource | StaticPlaylistSource | OtherSource

datatype page_type = DisplayPageGroup int | Source source_type | OtherDisplayPage

record display_page =
  name :: string
  visibility :: bool
  page_type :: page_type

type_synonym page_heap = "page_ref \<Rightarrow> display_page"

text \<open>
  Modelled from the spec: \<^verbatim>\<open>rb-display-page-group.h\<close>, which declares the enum
  \<^verbatim>\<open>RBDisplayPageGroupCategory\<close>, is not among the sources.  The spec lists the categories
  as fixed, persistent, removable, transient; they are numbered in that order.
\<close>

definition RB_DISPLAY_PAGE_GROUP_CATEGORY_FIXED :: int where
  "RB_DISPLAY_PAGE_GROUP_CATEGORY_FIXED = 0"

definition RB_DISPLAY_PAGE_GROUP_CATEGORY_PERSISTENT :: int where
  "RB_DISPLAY_PAGE_GROUP_CATEGORY_PERSISTENT = 1"

definition RB_DISPLAY_PAGE_GROUP_CATEGORY_REMOVABLE :: int where
  "RB_DISPLAY_PAGE_GROUP_CATEGORY_REMOVABLE = 2"

definition RB_DISPLAY_PAGE_GROUP_CATEGORY_TRANSIENT :: int where
  "RB_DISPLAY_PAGE_GROUP_CATEGORY_TRANSIENT = 3"

text \<open>The GObject type checks.  Each of them is false on \<^verbatim>\<open>NULL\<close>.\<close>

definition RB_IS_DISPLAY_PAGE :: "page_ptr \<Rightarrow> bool" where
  "RB_IS_DISPLAY_PAGE page = (page \<noteq> None)"

definition RB_IS_DISPLAY_PAGE_GROUP :: "page_heap \<Rightarrow> page_ptr \<Rightarrow> bool" where
  "RB_IS_DISPLAY_PAGE_GROUP h page =
     (case page of
        None \<Rightarrow> False
      | Some r \<Rightarrow> (case page_type (h r) of DisplayPageGroup c \<Rightarrow> True | _ \<Rightarrow> False))"

definition RB_IS_SOURCE :: "page_heap \<Rightarrow> page_ptr \<Rightarrow> bool" where
  "RB_IS_SOURCE h page =
     (case page of
        None \<Rightarrow> False
      | Some r \<Rightarrow> (case page_type (h r) of Source k \<Rightarrow> True | _ \<Rightarrow> False))"

definition RB_IS_AUTO_PLAYLIST_SOURCE :: "page_heap \<Rightarrow> page_ref \<Rightarrow> bool" where
  "RB_IS_AUTO_PLAYLIST_SOURCE h r = (page_type (h r) = Source AutoPlaylistSource)"

definition RB_IS_STATIC_PLAYLIST_SOURCE :: "page_heap \<Rightarrow> page_ref \<Rightarrow> bool" where
  "RB_IS_STATIC_PLAYLIST_SOURCE h r = (page_type (h r) = Source StaticPlaylistSource)"

text \<open>\<^verbatim>\<open>g_object_set (page, "visibility", v, NULL)\<close>; on \<^verbatim>\<open>NULL\<close> it does nothing.\<close>

definition g_object_set_visibility :: "page_heap \<Rightarrow> page_ptr \<Rightarrow> bool \<Rightarrow> page_heap" where
  "g_object_set_visibility h page v =
     (case page of None \<Rightarrow> h | Some r \<Rightarrow> h(r := (h r)\<lparr>visibility := v\<rparr>))"


section \<open>The tree store\<close>

text \<open>
  A row of the \<^verbatim>\<open>GtkTreeStore\<close> has the two columns of the model,
  \<^verbatim>\<open>RB_DISPLAY_PAGE_MODEL_COLUMN_PLAYING\<close> and \<^verbatim>\<open>RB_DISPLAY_PAGE_MODEL_COLUMN_PAGE\<close>, and
  its child rows.  A tree model is the list of its top-level rows.  A \<^verbatim>\<open>GtkTreePath\<close> is
  the list of child indices leading from the top level to a row; a \<^verbatim>\<open>GtkTreeIter\<close> is
  modelled by the path of the row it points to, and the empty path, which addresses no
  row, stands for an iterator that was never set.

  \<^verbatim>\<open>gtk_tree_store_append\<close> and \<^verbatim>\<open>gtk_tree_store_remove\<close> do not sort; writing the cells of a
  row does (below).
\<close>

datatype row = Row (row_playing: bool) (row_page: page_ptr) (row_children: "row list")

type_synonym tree_model = "row list"
type_synonym tree_path = "nat list"

fun get_row :: "tree_model \<Rightarrow> tree_path \<Rightarrow> row option" where
  "get_row rows [] = None"
| "get_row rows [i] = (if i < length rows then Some (rows ! i) else None)"
| "get_row rows (i # q) =
     (if i < length rows then get_row (row_children (rows ! i)) q else None)"

text \<open>\<^verbatim>\<open>gtk_tree_model_get_iter\<close>: the iterator of a path, when the path addresses a row.\<close>

definition gtk_tree_model_get_iter :: "tree_model \<Rightarrow> tree_path \<Rightarrow> tree_path option" where
  "gtk_tree_model_get_iter model path =
     (case get_row model path of None \<Rightarrow> None | Some r \<Rightarrow> Some path)"

text \<open>\<^verbatim>\<open>gtk_tree_model_get\<close> of one column.\<close>

definition gtk_tree_model_get_page :: "tree_model \<Rightarrow> tree_path \<Rightarrow> page_ptr" where
  "gtk_tree_model_get_page model iter =
     (case get_row model iter of None \<Rightarrow> None | Some r \<Rightarrow> row_page r)"

definition gtk_tree_model_get_playing :: "tree_model \<Rightarrow> tree_path \<Rightarrow> bool" where
  "gtk_tree_model_get_playing model iter =
     (case get_row model iter of None \<Rightarrow> False | Some r \<Rightarrow> row_playing r)"

definition gtk_tree_model_iter_has_child :: "tree_model \<Rightarrow> tree_path \<Rightarrow> bool" where
  "gtk_tree_model_iter_has_child model iter =
     (case get_row model iter of None \<Rightarrow> False | Some r \<Rightarrow> row_children r \<noteq> [])"

definition gtk_tree_model_iter_n_children :: "tree_model \<Rightarrow> tree_path \<Rightarrow> nat" where
  "gtk_tree_model_iter_n_children model iter =
     (case get_row model iter of None \<Rightarrow> 0 | Some r \<Rightarrow> length (row_children r))"

text \<open>
  \<^verbatim>\<open>gtk_tree_model_iter_parent\<close>: the parent of a row, none for a top-level row.
\<close>

definition gtk_tree_model_iter_parent :: "tree_path \<Rightarrow> tree_path option" where
  "gtk_tree_model_iter_parent child = (if length child \<le> 1 then None else Some (butlast child))"

text \<open>Replacing the row at a path by a function of it; the rows above keep their cells.\<close>

fun modify_row :: "(row \<Rightarrow> row) \<Rightarrow> tree_model \<Rightarrow> tree_path \<Rightarrow> tree_model" where
  "modify_row f rows [] = rows"
| "modify_row f rows [i] = (if i < length rows then rows[i := f (rows ! i)] else rows)"
| "modify_row f rows (i # q) =
     (if i < length rows
      then rows[i := Row (row_playing (rows ! i)) (row_page (rows ! i))
                         (modify_row f (row_children (rows ! i)) q)]
      else rows)"

definition delete_nth :: "nat \<Rightarrow> 'a list \<Rightarrow> 'a list" where
  "delete_nth i xs = take i xs @ drop (Suc i) xs"

text \<open>
  \<^verbatim>\<open>gtk_tree_store_append\<close> adds an empty row (PLAYING unset reads FALSE, PAGE is NULL) as
  the last child of \<open>parent\<close>, or as the last top-level row.  It returns the store, the new
  row's iterator, and the row on which the store emits \<^verbatim>\<open>row-has-child-toggled\<close>: the
  parent, when the new row is its first child.
\<close>

definition gtk_tree_store_append ::
  "tree_model \<Rightarrow> tree_path option \<Rightarrow> tree_model \<times> tree_path \<times> tree_path option" where
  "gtk_tree_store_append st parent =
     (case parent of
        None \<Rightarrow> (st @ [Row False None []], [length st], None)
      | Some p \<Rightarrow>
          (modify_row (\<lambda>r. Row (row_playing r) (row_page r) (row_children r @ [Row False None []])) st p,
           p @ [gtk_tree_model_iter_n_children st p],
           if gtk_tree_model_iter_has_child st p then None else Some p))"

text \<open>
  \<^verbatim>\<open>gtk_tree_store_remove\<close> removes a row with everything below it.  It returns the store
  and the row on which \<^verbatim>\<open>row-has-child-toggled\<close> is emitted: the parent, when it is a
  row and has lost its last child.
\<close>

definition gtk_tree_store_remove ::
  "tree_model \<Rightarrow> tree_path \<Rightarrow> tree_model \<times> tree_path option" where
  "gtk_tree_store_remove st iter =
     (case gtk_tree_model_iter_parent iter of
        None \<Rightarrow> (case iter of [i] \<Rightarrow> (delete_nth i st, None) | _ \<Rightarrow> (st, None))
      | Some p \<Rightarrow>
          (let st' = modify_row (\<lambda>r. Row (row_playing r) (row_page r)
                                        (delete_nth (last iter) (row_children r))) st p
           in (st', if gtk_tree_model_iter_has_child st' p then None else Some p)))"

subsection \<open>The sorted store\<close>

text \<open>
  A store with a sort function (a \<^verbatim>\<open>GtkTreeIterCompareFunc\<close>, here a function of the
  model and two iterators that may fail) keeps no row where it was written: every
  \<^verbatim>\<open>gtk_tree_store_set\<close> ends with \<^verbatim>\<open>gtk_tree_store_sort_iter_changed\<close> on the row.
  That function compares the row with its previous and its next sibling and leaves it when
  neither comparison is positive.  Otherwise it unlinks the row and walks its siblings from
  the first one, comparing the row with each, up to the first sibling for which the
  comparison is not positive; the row is linked in before that sibling, or after the last
  one.  The row unlinked still has its cells and its parent, so the comparisons are those
  of the store before the unlinking.  The iterator follows the row.
\<close>

datatype error = AssertionFailed | InvalidObject

type_synonym compare_func = "tree_model \<Rightarrow> tree_path \<Rightarrow> tree_path \<Rightarrow> error + int"

definition children_at :: "tree_model \<Rightarrow> tree_path \<Rightarrow> row list option" where
  "children_at model parent =
     (if parent = [] then Some model else map_option row_children (get_row model parent))"

definition update_children :: "(row list \<Rightarrow> row list) \<Rightarrow> tree_model \<Rightarrow> tree_path \<Rightarrow> tree_model" where
  "update_children f model parent =
     (if parent = [] then f model
      else modify_row (\<lambda>r. Row (row_playing r) (row_page r) (f (row_children r))) model parent)"

definition n_siblings :: "tree_model \<Rightarrow> tree_path \<Rightarrow> nat" where
  "n_siblings model iter =
     (case children_at model (butlast iter) of None \<Rightarrow> 0 | Some rows \<Rightarrow> length rows)"

definition insert_at :: "nat \<Rightarrow> 'a \<Rightarrow> 'a list \<Rightarrow> 'a list" where
  "insert_at n x xs = take n xs @ x # drop n xs"

definition in_sorted_position :: "compare_func \<Rightarrow> tree_model \<Rightarrow> tree_path \<Rightarrow> error + bool" where
  "in_sorted_position func st iter =
     (let parent = butlast iter; k = last iter; n = n_siblings st iter in
      case (if k = 0 then Inr 0 else func st (parent @ [k - 1]) iter) of
        Inl e \<Rightarrow> Inl e
      | Inr cmp_a \<Rightarrow>
          (case (if Suc k < n then func st iter (parent @ [Suc k]) else Inr 0) of
             Inl e \<Rightarrow> Inl e
           | Inr cmp_b \<Rightarrow>
               Inr ((k = 0 \<and> cmp_b \<le> 0) \<or> (\<not> Suc k < n \<and> cmp_a \<le> 0)
                    \<or> (k \<noteq> 0 \<and> Suc k < n \<and> cmp_a \<le> 0 \<and> cmp_b \<le> 0))))"

fun new_location :: "(nat \<Rightarrow> error + int) \<Rightarrow> nat list \<Rightarrow> nat \<Rightarrow> error + nat" where
  "new_location cmp [] location = Inr location"
| "new_location cmp (j # js) location =
     (case cmp j of
        Inl e \<Rightarrow> Inl e
      | Inr c \<Rightarrow> if c > 0 then new_location cmp js (Suc location) else Inr location)"

definition gtk_tree_store_sort_iter_changed ::
  "compare_func \<Rightarrow> tree_model \<Rightarrow> tree_path \<Rightarrow> error + tree_model \<times> tree_path" where
  "gtk_tree_store_sort_iter_changed func st iter =
     (case get_row st iter of
        None \<Rightarrow> Inr (st, iter)
      | Some r \<Rightarrow>
          (case in_sorted_position func st iter of
             Inl e \<Rightarrow> Inl e
           | Inr True \<Rightarrow> Inr (st, iter)
           | Inr False \<Rightarrow>
               (let parent = butlast iter; k = last iter; n = n_siblings st iter in
                case new_location (\<lambda>j. func st iter (parent @ [j])) ([0..<k] @ [Suc k..<n]) 0 of
                  Inl e \<Rightarrow> Inl e
                | Inr location \<Rightarrow>
                    Inr (update_children (\<lambda>rows. insert_at location r (delete_nth k rows)) st parent,
                         parent @ [location]))))"

text \<open>\<^verbatim>\<open>gtk_tree_store_set\<close> of the PLAYING column, and of both columns.\<close>

definition gtk_tree_store_set_playing ::
  "compare_func \<Rightarrow> tree_model \<Rightarrow> tree_path \<Rightarrow> bool \<Rightarrow> error + tree_model \<times> tree_path" where
  "gtk_tree_store_set_playing func st iter playing =
     gtk_tree_store_sort_iter_changed func
       (modify_row (\<lambda>r. Row playing (row_page r) (row_children r)) st iter) iter"

definition gtk_tree_store_set ::
  "compare_func \<Rightarrow> tree_model \<Rightarrow> tree_path \<Rightarrow> bool \<Rightarrow> page_ptr \<Rightarrow> error + tree_model \<times> tree_path" where
  "gtk_tree_store_set func st iter playing page =
     gtk_tree_store_sort_iter_changed func
       (modify_row (\<lambda>r. Row playing page (row_children r)) st iter) iter"

subsection \<open>Traversal\<close>

text \<open>
  \<^verbatim>\<open>gtk_tree_model_foreach\<close> calls a function on every row, parents before their children
  and siblings in order, until the function returns TRUE.  For a function that leaves every
  row where it is, the rows visited are those of \<open>iters_from\<close>, in that order; the function
  gets the model and its user data and hands both back with its boolean.
\<close>

fun iters_from :: "nat \<Rightarrow> row list \<Rightarrow> tree_path list" where
  "iters_from i [] = []"
| "iters_from i (Row playing page children # rs) =
     ([i] # map ((#) i) (iters_from 0 children)) @ iters_from (Suc i) rs"

fun foreach_iters ::
  "(tree_model \<Rightarrow> tree_path \<Rightarrow> 'd \<Rightarrow> bool \<times> tree_model \<times> 'd) \<Rightarrow> tree_path list \<Rightarrow>
   tree_model \<Rightarrow> 'd \<Rightarrow> tree_model \<times> 'd" where
  "foreach_iters func [] model data = (model, data)"
| "foreach_iters func (iter # iters) model data =
     (case func model iter data of
        (stop, model', data') \<Rightarrow>
          if stop then (model', data') else foreach_iters func iters model' data')"

definition gtk_tree_model_foreach ::
  "tree_model \<Rightarrow> (tree_model \<Rightarrow> tree_path \<Rightarrow> 'd \<Rightarrow> bool \<times> tree_model \<times> 'd) \<Rightarrow> 'd \<Rightarrow>
   tree_model \<times> 'd" where
  "gtk_tree_model_foreach model func data = foreach_iters func (iters_from 0 model) model data"

text \<open>
  For a function that writes to a sorted store the traversal is the loop of
  \<^verbatim>\<open>gtk_tree_model_foreach_helper\<close> itself: call the function on the row, go through the
  children of the row, go on with the sibling that follows the row.  The iterators of a
  store persist, so after a write that moved the row the loop goes on from where the row
  is now: the function hands back the iterator with the model.  The loop need not end;
  \<open>None\<close> is a traversal that does not return.
\<close>

definition gtk_tree_model_iter_next :: "tree_model \<Rightarrow> tree_path \<Rightarrow> tree_path option" where
  "gtk_tree_model_iter_next model iter =
     (if iter = [] then None
      else (let next = butlast iter @ [Suc (last iter)] in
            case get_row model next of None \<Rightarrow> None | Some r \<Rightarrow> Some next))"

partial_function (option) gtk_tree_model_foreach_helper ::
  "(tree_model \<Rightarrow> tree_path \<Rightarrow> 'd \<Rightarrow> error + bool \<times> tree_model \<times> tree_path \<times> 'd) \<Rightarrow>
   tree_model \<Rightarrow> tree_path \<Rightarrow> 'd \<Rightarrow> (error + bool \<times> tree_model \<times> 'd) option" where
  "gtk_tree_model_foreach_helper func model iter user_data =
     (case func model iter user_data of
        Inl e \<Rightarrow> Some (Inl e)
      | Inr (stop, model1, iter1, user_data1) \<Rightarrow>
          if stop then Some (Inr (True, model1, user_data1))
          else
            Option.bind
              (if gtk_tree_model_iter_has_child model1 iter1
               then gtk_tree_model_foreach_helper func model1 (iter1 @ [0]) user_data1
               else Some (Inr (False, model1, user_data1)))
              (\<lambda>below.
                 case below of
                   Inl e \<Rightarrow> Some (Inl e)
                 | Inr (stop2, model2, user_data2) \<Rightarrow>
                     if stop2 then Some (Inr (True, model2, user_data2))
                     else (case gtk_tree_model_iter_next model2 iter1 of
                             None \<Rightarrow> Some (Inr (False, model2, user_data2))
                           | Some next \<Rightarrow>
                               gtk_tree_model_foreach_helper func model2 next user_data2)))"

text \<open>
  \<^verbatim>\<open>gtk_tree_model_foreach\<close> with a function that writes to the store: nothing happens in
  an empty model, otherwise the loop starts at the first top-level row.
\<close>

definition gtk_tree_model_foreach_write ::
  "tree_model \<Rightarrow> (tree_model \<Rightarrow> tree_path \<Rightarrow> 'd \<Rightarrow> error + bool \<times> tree_model \<times> tree_path \<times> 'd) \<Rightarrow>
   'd \<Rightarrow> (error + tree_model \<times> 'd) option" where
  "gtk_tree_model_foreach_write model func user_data =
     (if model = [] then Some (Inr (model, user_data))
      else map_option (map_sum id snd) (gtk_tree_model_foreach_helper func model [0] user_data))"

text \<open>
  A \<^verbatim>\<open>GtkTreeModelFilter\<close> shows the rows of its child model that the visible function
  accepts; the rows below a row it does not show are not shown either.  The visible
  function is called with the child model's iterator of the row.
\<close>

fun filter_from :: "(tree_path \<Rightarrow> bool) \<Rightarrow> nat \<Rightarrow> row list \<Rightarrow> row list" where
  "filter_from vis i [] = []"
| "filter_from vis i (Row playing page children # rs) =
     (if vis [i] then [Row playing page (filter_from (\<lambda>q. vis (i # q)) 0 children)] else [])
     @ filter_from vis (Suc i) rs"

definition gtk_tree_model_filter ::
  "(tree_model \<Rightarrow> tree_path \<Rightarrow> bool) \<Rightarrow> tree_model \<Rightarrow> tree_model" where
  "gtk_tree_model_filter visible_func child_model =
     filter_from (visible_func child_model) 0 child_model"


section \<open>The display page model\<close>

text \<open>
  The program state: the \<^verbatim>\<open>GtkTreeStore\<close> behind the \<^verbatim>\<open>RBDisplayPageModel\<close>, the sort
  function of the store (it reads the page objects) and the page objects.  The
  \<^verbatim>\<open>RBDisplayPageModel\<close> itself is the filter model over the store.  A failed
  \<^verbatim>\<open>g_assert\<close> aborts the program; reading a property of an object that does not have it
  leaves the C variable unset, and is an error here.
\<close>

record state =
  store :: tree_model
  pages :: page_heap
  sort_func :: "page_heap \<Rightarrow> compare_func"

subsection \<open>Looking a page up\<close>

record DisplayPageIter =
  dpi_page :: page_ptr
  dpi_iter :: tree_path
  dpi_found :: bool

definition match_page_to_iter ::
  "tree_model \<Rightarrow> tree_path \<Rightarrow> DisplayPageIter \<Rightarrow> bool \<times> tree_model \<times> DisplayPageIter" where
  "match_page_to_iter model iter dpi =
     (let target = gtk_tree_model_get_page model iter;
          dpi' = (if target = dpi_page dpi then dpi\<lparr>dpi_iter := iter, dpi_found := True\<rparr> else dpi)
      in (dpi_found dpi', model, dpi'))"

text \<open>
  Both lookups return the boolean and the caller's iterator, which is written only when
  the page is found.
\<close>

definition find_in_real_model :: "state \<Rightarrow> page_ptr \<Rightarrow> tree_path \<Rightarrow> bool \<times> tree_path" where
  "find_in_real_model page_model page iter =
     (let dpi = snd (gtk_tree_model_foreach (store page_model) match_page_to_iter
                       \<lparr>dpi_page = page, dpi_iter = [], dpi_found = False\<rparr>)
      in if dpi_found dpi then (True, dpi_iter dpi) else (False, iter))"

subsection \<open>The sort function\<close>

text \<open>
  The loop that walks up from a row to its top-level ancestor:
  \<^verbatim>\<open>do { group_iter = walk_iter; } while (gtk_tree_model_iter_parent (model, &walk_iter, &group_iter));\<close>
\<close>

function walk_up :: "tree_path \<Rightarrow> tree_path" where
  "walk_up walk_iter =
     (case gtk_tree_model_iter_parent walk_iter of
        None \<Rightarrow> walk_iter
      | Some parent \<Rightarrow> walk_up parent)"
  by pat_completeness auto
termination
  by (relation "measure length") (auto simp: gtk_tree_model_iter_parent_def split: if_splits)

declare walk_up.simps [simp del]

text \<open>
  \<open>compare_rows\<close> takes \<^verbatim>\<open>g_utf8_collate\<close>, which depends on the locale, as a parameter.
  The names are read from both pages first, so both must be objects.
\<close>

definition compare_rows ::
  "(string \<Rightarrow> string \<Rightarrow> int) \<Rightarrow> page_heap \<Rightarrow> tree_model \<Rightarrow> tree_path \<Rightarrow> tree_path \<Rightarrow> error + int" where
  "compare_rows g_utf8_collate h model a b =
     (case (gtk_tree_model_get_page model a, gtk_tree_model_get_page model b) of
        (Some a_page, Some b_page) \<Rightarrow>
          (let a_name = name (h a_page); b_name = name (h b_page) in
           case (page_type (h a_page), page_type (h b_page)) of
             (DisplayPageGroup a_cat, DisplayPageGroup b_cat) \<Rightarrow>
               if a_cat < b_cat then Inr (- 1)
               else if a_cat > b_cat then Inr 1
               else Inr (g_utf8_collate a_name b_name)
           | _ \<Rightarrow>
               (let group_iter = walk_up a in
                case gtk_tree_model_get_page model group_iter of
                  None \<Rightarrow> Inl InvalidObject
                | Some group_page \<Rightarrow>
                    (case page_type (h group_page) of
                       DisplayPageGroup category \<Rightarrow>
                         if category = RB_DISPLAY_PAGE_GROUP_CATEGORY_FIXED then Inr (- 1)
                         else if category = RB_DISPLAY_PAGE_GROUP_CATEGORY_PERSISTENT then
                           (if RB_IS_AUTO_PLAYLIST_SOURCE h a_page \<and> RB_IS_AUTO_PLAYLIST_SOURCE h b_page
                            then Inr (g_utf8_collate a_name b_name)
                            else if RB_IS_STATIC_PLAYLIST_SOURCE h a_page
                                    \<and> RB_IS_STATIC_PLAYLIST_SOURCE h b_page
                            then Inr (g_utf8_collate a_name b_name)
                            else if RB_IS_AUTO_PLAYLIST_SOURCE h a_page then Inr (- 1)
                            else Inr 1)
                         else if category = RB_DISPLAY_PAGE_GROUP_CATEGORY_REMOVABLE
                                 \<or> category = RB_DISPLAY_PAGE_GROUP_CATEGORY_TRANSIENT
                         then Inr (g_utf8_collate a_name b_name)
                         else Inl AssertionFailed
                     | _ \<Rightarrow> Inl InvalidObject)))
      | _ \<Rightarrow> Inl InvalidObject)"

subsection \<open>Visibility\<close>

definition rb_display_page_model_is_row_visible ::
  "page_heap \<Rightarrow> tree_model \<Rightarrow> tree_path \<Rightarrow> bool" where
  "rb_display_page_model_is_row_visible h model iter =
     (case gtk_tree_model_get_page model iter of
        None \<Rightarrow> False
      | Some page \<Rightarrow> visibility (h page))"

text \<open>The rows of the \<^verbatim>\<open>RBDisplayPageModel\<close>, that is of the filter over the store.\<close>

definition filter_model :: "state \<Rightarrow> tree_model" where
  "filter_model page_model =
     gtk_tree_model_filter (rb_display_page_model_is_row_visible (pages page_model))
       (store page_model)"

text \<open>
  The handler of the store's \<^verbatim>\<open>row-has-child-toggled\<close> signal.  (Setting the property
  notifies \<open>page_notify_cb\<close>, which only emits \<^verbatim>\<open>row-changed\<close> for the page's row.)
\<close>

definition update_group_visibility_cb :: "state \<Rightarrow> tree_path \<Rightarrow> state" where
  "update_group_visibility_cb s iter =
     (let page = gtk_tree_model_get_page (store s) iter in
      if RB_IS_DISPLAY_PAGE_GROUP (pages s) page
      then s\<lparr>pages := g_object_set_visibility (pages s) page
                         (gtk_tree_model_iter_has_child (store s) iter)\<rparr>
      else s)"

definition row_has_child_toggled :: "state \<Rightarrow> tree_path option \<Rightarrow> state" where
  "row_has_child_toggled s emitted =
     (case emitted of None \<Rightarrow> s | Some iter \<Rightarrow> update_group_visibility_cb s iter)"

subsection \<open>Adding and removing pages, the playing source\<close>

text \<open>
  \<open>rb_display_page_model_new\<close> makes the store, sets \<open>compare_rows\<close> as the sort function
  of the PAGE column and sorts by that column.
\<close>

definition rb_display_page_model_new :: "(string \<Rightarrow> string \<Rightarrow> int) \<Rightarrow> page_heap \<Rightarrow> state" where
  "rb_display_page_model_new g_utf8_collate h =
     \<lparr>store = [], pages = h, sort_func = compare_rows g_utf8_collate\<rparr>"

definition rb_display_page_model_add_page :: "state \<Rightarrow> page_ptr \<Rightarrow> page_ptr \<Rightarrow> error + state" where
  "rb_display_page_model_add_page page_model page parent =
     (if \<not> RB_IS_DISPLAY_PAGE page then Inr page_model
      else if parent \<noteq> None then
        (case find_in_real_model page_model parent [] of
           (False, parent_iter) \<Rightarrow> Inl AssertionFailed
         | (True, parent_iter) \<Rightarrow>
             (case gtk_tree_store_append (store page_model) (Some parent_iter) of
                (st, iter, emitted) \<Rightarrow>
                  (let s1 = row_has_child_toggled (page_model\<lparr>store := st\<rparr>) emitted in
                   case gtk_tree_store_set (sort_func s1 (pages s1)) (store s1) iter False page of
                     Inl e \<Rightarrow> Inl e
                   | Inr (st', iter') \<Rightarrow> Inr (s1\<lparr>store := st'\<rparr>))))
      else
        (let s0 = page_model\<lparr>pages := g_object_set_visibility (pages page_model) page False\<rparr> in
         case gtk_tree_store_append (store s0) None of
           (st, iter, emitted) \<Rightarrow>
             (let s1 = row_has_child_toggled (s0\<lparr>store := st\<rparr>) emitted in
              case gtk_tree_store_set (sort_func s1 (pages s1)) (store s1) iter False page of
                Inl e \<Rightarrow> Inl e
              | Inr (st', iter') \<Rightarrow> Inr (s1\<lparr>store := st'\<rparr>))))"

definition rb_display_page_model_remove_page :: "state \<Rightarrow> page_ptr \<Rightarrow> error + state" where
  "rb_display_page_model_remove_page page_model page =
     (case find_in_real_model page_model page [] of
        (False, iter) \<Rightarrow> Inl AssertionFailed
      | (True, iter) \<Rightarrow>
          (case gtk_tree_store_remove (store page_model) iter of
             (st, emitted) \<Rightarrow> Inr (row_has_child_toggled (page_model\<lparr>store := st\<rparr>) emitted)))"

definition rb_display_page_model_find_page :: "state \<Rightarrow> page_ptr \<Rightarrow> tree_path \<Rightarrow> bool \<times> tree_path" where
  "rb_display_page_model_find_page page_model page iter =
     (let dpi = snd (gtk_tree_model_foreach (filter_model page_model) match_page_to_iter
                       \<lparr>dpi_page = page, dpi_iter = [], dpi_found = False\<rparr>)
      in if dpi_found dpi then (True, dpi_iter dpi) else (False, iter))"

text \<open>
  \<open>set_playing_flag\<close> writes to the store, so it hands back the iterator of its row; its
  first two arguments are the store's sort function and the page objects.
\<close>

definition set_playing_flag ::
  "compare_func \<Rightarrow> page_heap \<Rightarrow> tree_model \<Rightarrow> tree_path \<Rightarrow> page_ptr \<Rightarrow>
   error + bool \<times> tree_model \<times> tree_path \<times> page_ptr" where
  "set_playing_flag func h model iter source =
     (let page = gtk_tree_model_get_page model iter;
          old_playing = gtk_tree_model_get_playing model iter
      in if RB_IS_SOURCE h page
         then (let new_playing = (page = source)
               in if old_playing \<or> new_playing
                  then (case gtk_tree_store_set_playing func model iter new_playing of
                          Inl e \<Rightarrow> Inl e
                        | Inr (model', iter') \<Rightarrow> Inr (False, model', iter', source))
                  else Inr (False, model, iter, source))
         else Inr (False, model, iter, source))"

definition rb_display_page_model_set_playing_source ::
  "state \<Rightarrow> page_ptr \<Rightarrow> (error + state) option" where
  "rb_display_page_model_set_playing_source page_model source =
     (case gtk_tree_model_foreach_write (store page_model)
             (set_playing_flag (sort_func page_model (pages page_model)) (pages page_model)) source of
        None \<Rightarrow> None
      | Some (Inl e) \<Rightarrow> Some (Inl e)
      | Some (Inr (st, user_data)) \<Rightarrow> Some (Inr (page_model\<lparr>store := st\<rparr>)))"

text \<open>
  Sequences of the three operations.  The first failed assertion ends the run; \<open>None\<close> is
  a run that does not return.
\<close>

datatype operation =
    AddPage page_ptr page_ptr
  | RemovePage page_ptr
  | SetPlayingSource page_ptr

fun apply_operation :: "state \<Rightarrow> operation \<Rightarrow> (error + state) option" where
  "apply_operation s (AddPage page parent) = Some (rb_display_page_model_add_page s page parent)"
| "apply_operation s (RemovePage page) = Some (rb_display_page_model_remove_page s page)"
| "apply_operation s (SetPlayingSource source) = rb_display_page_model_set_playing_source s source"

fun apply_operations :: "state \<Rightarrow> operation list \<Rightarrow> (error + state) option" where
  "apply_operations s [] = Some (Inr s)"
| "apply_operations s (x # xs) =
     (case apply_operation s x of
        None \<Rightarrow> None
      | Some (Inl e) \<Rightarrow> Some (Inl e)
      | Some (Inr s') \<Rightarrow> apply_operations s' xs)"

subsection \<open>Drag and drop\<close>

text \<open>
  A \<^verbatim>\<open>GdkAtom\<close> is an interned string: two atoms are equal exactly when their names are
  (GDK ignores the \<^verbatim>\<open>only_if_exists\<close> argument of \<^verbatim>\<open>gdk_atom_intern\<close>).
\<close>

type_synonym GdkAtom = string

definition gdk_atom_intern :: "string \<Rightarrow> GdkAtom" where
  "gdk_atom_intern atom_name = atom_name"

datatype target_info = TARGET_PROPERTY | TARGET_SOURCE | TARGET_URIS | TARGET_ENTRIES | TARGET_DELETE

definition dnd_targets :: "(string \<times> nat \<times> target_info) list" where
  "dnd_targets =
     [(''text/x-rhythmbox-album'', 0, TARGET_PROPERTY),
      (''text/x-rhythmbox-artist'', 0, TARGET_PROPERTY),
      (''text/x-rhythmbox-genre'', 0, TARGET_PROPERTY),
      (''application/x-rhythmbox-source'', 0, TARGET_SOURCE),
      (''application/x-rhythmbox-entry'', 0, TARGET_ENTRIES),
      (''text/uri-list'', 0, TARGET_URIS),
      (''application/x-delete-me'', 0, TARGET_DELETE)]"

datatype GtkTreeViewDropPosition =
    GTK_TREE_VIEW_DROP_BEFORE
  | GTK_TREE_VIEW_DROP_AFTER
  | GTK_TREE_VIEW_DROP_INTO_OR_BEFORE
  | GTK_TREE_VIEW_DROP_INTO_OR_AFTER

record GtkSelectionData =
  data_type :: GdkAtom
  data :: string

text \<open>
  The first argument of the functions below is the display page model, so the checks
  \<^verbatim>\<open>RB_IS_DISPLAY_PAGE_MODEL\<close> on it hold.  An emission of \<^verbatim>\<open>drop-received\<close> carries the
  target page, the position and the selection data.  \<^verbatim>\<open>g_signal_emit\<close> runs the
  connected handlers, whatever they are, on the state before it returns: they are the
  parameter \<open>drop_received\<close>.  The drop handler returns its boolean, the emissions it
  made, and the state.
\<close>

type_synonym drop_emission = "page_ptr \<times> GtkTreeViewDropPosition \<times> GtkSelectionData"

definition rb_display_page_model_drag_data_received ::
  "(state \<Rightarrow> drop_emission \<Rightarrow> state) \<Rightarrow> state \<Rightarrow> tree_path option \<Rightarrow> GtkTreeViewDropPosition \<Rightarrow>
   GtkSelectionData \<Rightarrow> bool \<times> drop_emission list \<times> state" where
  "rb_display_page_model_drag_data_received drop_received model dest pos selection_data =
     (let type = data_type selection_data in
      if type = gdk_atom_intern ''text/uri-list''
         \<or> type = gdk_atom_intern ''application/x-rhythmbox-entry''
      then
        (let target =
               (case dest of
                  None \<Rightarrow> None
                | Some d \<Rightarrow>
                    (case gtk_tree_model_get_iter (filter_model model) d of
                       None \<Rightarrow> None
                     | Some iter \<Rightarrow> gtk_tree_model_get_page (filter_model model) iter))
         in (True, [(target, pos, selection_data)],
             drop_received model (target, pos, selection_data)))
      else if type = gdk_atom_intern ''text/x-rhythmbox-album''
              \<or> type = gdk_atom_intern ''text/x-rhythmbox-artist''
              \<or> type = gdk_atom_intern ''text/x-rhythmbox-genre''
      then (True, [(None, pos, selection_data)], drop_received model (None, pos, selection_data))
      else if type = gdk_atom_intern ''application/x-rhythmbox-source''
      then (False, [], model)
      else (False, [], model))"

definition rb_display_page_model_row_draggable :: "state \<Rightarrow> tree_path list \<Rightarrow> bool" where
  "rb_display_page_model_row_draggable drag_source path_list = False"


section \<open>Rows, cells and the conventions of use\<close>

text \<open>
  The rows of a model in the order of \<^verbatim>\<open>gtk_tree_model_foreach\<close>, each with its PLAYING
  cell, its PAGE cell and whether it has children.
\<close>

type_synonym row_info = "bool \<times> page_ptr \<times> bool"

fun all_rows :: "row list \<Rightarrow> row_info list" where
  "all_rows [] = []"
| "all_rows (Row playing page children # rs) =
     (playing, page, children \<noteq> []) # all_rows children @ all_rows rs"

definition row_info :: "row \<Rightarrow> row_info" where
  "row_info r = (row_playing r, row_page r, row_children r \<noteq> [])"

definition cells_of :: "tree_model \<Rightarrow> (bool \<times> page_ptr) list" where
  "cells_of model = map (\<lambda>(playing, page, has_child). (playing, page)) (all_rows model)"

definition pages_of :: "tree_model \<Rightarrow> page_ptr list" where
  "pages_of model = map (\<lambda>(playing, page, has_child). page) (all_rows model)"

definition playing_pages :: "tree_model \<Rightarrow> page_ptr list" where
  "playing_pages model = map snd (filter fst (cells_of model))"

text \<open>
  The rows of a model in the same order, each with its depth (the length of its path when
  the first argument is 1) and its two cells.
\<close>

fun rows_by_depth :: "nat \<Rightarrow> row list \<Rightarrow> (nat \<times> bool \<times> page_ptr) list" where
  "rows_by_depth d [] = []"
| "rows_by_depth d (Row playing page children # rs) =
     (d, playing, page) # rows_by_depth (Suc d) children @ rows_by_depth d rs"

text \<open>The two cells of the row at an iterator.\<close>

definition cells_at :: "tree_model \<Rightarrow> tree_path \<Rightarrow> bool \<times> page_ptr" where
  "cells_at model iter = (gtk_tree_model_get_playing model iter, gtk_tree_model_get_page model iter)"

text \<open>
  What \<open>set_playing_flag\<close> leaves in the PLAYING cell of a row, and the function that
  applies it to every row.
\<close>

definition playing_for :: "page_heap \<Rightarrow> page_ptr \<Rightarrow> bool \<Rightarrow> page_ptr \<Rightarrow> bool" where
  "playing_for h source playing page = (if RB_IS_SOURCE h page then page = source else playing)"

fun map_playing :: "(bool \<Rightarrow> page_ptr \<Rightarrow> bool) \<Rightarrow> row list \<Rightarrow> row list" where
  "map_playing g [] = []"
| "map_playing g (Row playing page children # rs) =
     Row (g playing page) page (map_playing g children) # map_playing g rs"

text \<open>The model with every PLAYING cell cleared: what a sort function of the pages reads.\<close>

definition without_playing :: "tree_model \<Rightarrow> tree_model" where
  "without_playing = map_playing (\<lambda>playing page. False)"

text \<open>
  A row after a page was linked in as its \<open>n\<close>-th child, and after its \<open>k\<close>-th child was
  removed.
\<close>

definition insert_child :: "nat \<Rightarrow> page_ptr \<Rightarrow> row \<Rightarrow> row" where
  "insert_child n page x =
     Row (row_playing x) (row_page x) (insert_at n (Row False page []) (row_children x))"

definition remove_child :: "nat \<Rightarrow> row \<Rightarrow> row" where
  "remove_child k x = Row (row_playing x) (row_page x) (delete_nth k (row_children x))"

text \<open>
  A traversal by a function that leaves every row where it is visits the rows of
  \<open>iters_from\<close>; this is the loop over a list of iterators for a function of the kind
  that \<open>gtk_tree_model_foreach_helper\<close> takes.
\<close>

fun foreach_paths ::
  "(tree_model \<Rightarrow> tree_path \<Rightarrow> 'd \<Rightarrow> error + bool \<times> tree_model \<times> tree_path \<times> 'd) \<Rightarrow>
   tree_path list \<Rightarrow> tree_model \<Rightarrow> 'd \<Rightarrow> error + bool \<times> tree_model \<times> 'd" where
  "foreach_paths func [] model user_data = Inr (False, model, user_data)"
| "foreach_paths func (iter # iters) model user_data =
     (case func model iter user_data of
        Inl e \<Rightarrow> Inl e
      | Inr (stop, model1, iter1, user_data1) \<Rightarrow>
          if stop then Inr (True, model1, user_data1)
          else foreach_paths func iters model1 user_data1)"

text \<open>
  Every row of the store is where the sort function wants it between its neighbours, so
  that writing a cell the sort function does not read moves no row; and a run of
  operations in which that holds whenever the playing source is set.
\<close>

definition rows_in_place :: "state \<Rightarrow> bool" where
  "rows_in_place s =
     list_all (\<lambda>iter. in_sorted_position (sort_func s (pages s)) (store s) iter = Inr True)
       (iters_from 0 (store s))"

fun played_in_place :: "state \<Rightarrow> operation list \<Rightarrow> bool" where
  "played_in_place s [] = True"
| "played_in_place s (x # xs) =
     ((case x of SetPlayingSource source \<Rightarrow> rows_in_place s | _ \<Rightarrow> True)
      \<and> (case apply_operation s x of Some (Inr s') \<Rightarrow> played_in_place s' xs | _ \<Rightarrow> True))"

text \<open>
  The \<^verbatim>\<open>visibility\<close> of the page in a PAGE cell, and the two conditions under which
  the groups of a model are shown exactly when they have children: no group is held by two
  rows, and every group's \<^verbatim>\<open>visibility\<close> equals whether its row has children.
\<close>

definition page_visibility :: "page_heap \<Rightarrow> page_ptr \<Rightarrow> bool" where
  "page_visibility h page = (case page of None \<Rightarrow> False | Some r \<Rightarrow> visibility (h r))"

definition groups_once :: "page_heap \<Rightarrow> tree_model \<Rightarrow> bool" where
  "groups_once h model =
     (\<forall>g. RB_IS_DISPLAY_PAGE_GROUP h g \<longrightarrow> count (mset (pages_of model)) g \<le> 1)"

definition groups_shown :: "page_heap \<Rightarrow> tree_model \<Rightarrow> bool" where
  "groups_shown h model =
     (\<forall>x \<in> set (all_rows model).
        RB_IS_DISPLAY_PAGE_GROUP h (fst (snd x)) \<longrightarrow> page_visibility h (fst (snd x)) = snd (snd x))"

definition group_inv :: "state \<Rightarrow> bool" where
  "group_inv s = (groups_once (pages s) (store s) \<and> groups_shown (pages s) (store s))"

text \<open>
  The convention of the callers of \<open>rb_display_page_model_add_page\<close>: a group is added at
  the top level (\<open>parent\<close> is \<^verbatim>\<open>NULL\<close>), and only when no row holds it yet.
\<close>

fun operation_ok :: "state \<Rightarrow> operation \<Rightarrow> bool" where
  "operation_ok s (AddPage page parent) =
     (RB_IS_DISPLAY_PAGE_GROUP (pages s) page \<longrightarrow> parent = None \<and> page \<notin> set (pages_of (store s)))"
| "operation_ok s (RemovePage page) = True"
| "operation_ok s (SetPlayingSource source) = True"

fun usage_ok :: "state \<Rightarrow> operation list \<Rightarrow> bool" where
  "usage_ok s [] = True"
| "usage_ok s (x # xs) =
     (operation_ok s x
      \<and> (case apply_operation s x of Some (Inr s') \<Rightarrow> usage_ok s' xs | _ \<Rightarrow> True))"

text \<open>
  The rows whose PLAYING cell is TRUE all hold one page, and that page is an
  \<^verbatim>\<open>RBSource\<close>.
\<close>

definition playing_inv :: "state \<Rightarrow> bool" where
  "playing_inv s =
     (\<exists>source. \<forall>c \<in> set (cells_of (store s)). fst c \<longrightarrow> snd c = source \<and> RB_IS_SOURCE (pages s) (snd c))"

text \<open>
  A visible function holds at the row of a path and at every row above it.
\<close>

fun shown :: "(tree_path \<Rightarrow> bool) \<Rightarrow> tree_path \<Rightarrow> bool" where
  "shown vis [] = True"
| "shown vis (i # q) = (vis [i] \<and> shown (\<lambda>q'. vis (i # q')) q)"


section \<open>A sidebar to compute with\<close>

text \<open>
  Byte-wise comparison of names, which is what \<^verbatim>\<open>g_utf8_collate\<close> gives for ASCII names
  in the C locale; and a sidebar with the groups Library and Stores (fixed), Playlists
  (persistent), Devices (removable) and Shared (transient).
\<close>

fun strcmp :: "string \<Rightarrow> string \<Rightarrow> int" where
  "strcmp [] [] = 0"
| "strcmp [] (y # ys) = - 1"
| "strcmp (x # xs) [] = 1"
| "strcmp (x # xs) (y # ys) =
     (if x = y then strcmp xs ys else if (of_char x :: nat) < of_char y then - 1 else 1)"

definition sidebar_pages :: page_heap where
  "sidebar_pages r =
     (if r = 0 then \<lparr>name = ''Library'', visibility = True,
                     page_type = DisplayPageGroup RB_DISPLAY_PAGE_GROUP_CATEGORY_FIXED\<rparr>
      else if r = 1 then \<lparr>name = ''Playlists'', visibility = True,
                     page_type = DisplayPageGroup RB_DISPLAY_PAGE_GROUP_CATEGORY_PERSISTENT\<rparr>
      else if r = 2 then \<lparr>name = ''Music'', visibility = True, page_type = Source OtherSource\<rparr>
      else if r = 3 then \<lparr>name = ''Podcasts'', visibility = False, page_type = Source OtherSource\<rparr>
      else if r = 4 then \<lparr>name = ''Recently Added'', visibility = True,
                     page_type = Source AutoPlaylistSource\<rparr>
      else if r = 5 then \<lparr>name = ''Favourites'', visibility = True,
                     page_type = Source StaticPlaylistSource\<rparr>
      else if r = 6 then \<lparr>name = ''Devices'', visibility = False,
                     page_type = DisplayPageGroup RB_DISPLAY_PAGE_GROUP_CATEGORY_REMOVABLE\<rparr>
      else if r = 7 then \<lparr>name = ''Shared'', visibility = True,
                     page_type = DisplayPageGroup RB_DISPLAY_PAGE_GROUP_CATEGORY_TRANSIENT\<rparr>
      else if r = 8 then \<lparr>name = ''My Top Rated'', visibility = True,
                     page_type = Source AutoPlaylistSource\<rparr>
      else if r = 9 then \<lparr>name = ''Zoe'', visibility = True, page_type = Source OtherSource\<rparr>
      else if r = 10 then \<lparr>name = ''Adam'', visibility = True, page_type = Source OtherSource\<rparr>
      else \<lparr>name = ''Stores'', visibility = False,
             page_type = DisplayPageGroup RB_DISPLAY_PAGE_GROUP_CATEGORY_FIXED\<rparr>)"

definition sidebar_store :: tree_model where
  "sidebar_store =
     [Row False (Some 0) [Row True (Some 2) [], Row False (Some 3) []],
      Row False (Some 11) [],
      Row False (Some 1) [Row False (Some 8) [], Row False (Some 4) [], Row False (Some 5) []],
      Row False (Some 6) [],
      Row False (Some 7) [Row False (Some 10) [], Row False (Some 9) []]]"

definition sidebar :: state where
  "sidebar = \<lparr>store = sidebar_store, pages = sidebar_pages, sort_func = compare_rows strcmp\<rparr>"

definition no_handler :: "state \<Rightarrow> drop_emission \<Rightarrow> state" where
  "no_handler s emission = s"

text \<open>
  Runs and stores for the examples: Library, then Podcasts (not visible) below it, then
  Music below Podcasts; and the groups Library and Devices below the group Shared.
\<close>

definition page_below_hidden_page :: "operation list" where
  "page_below_hidden_page =
     [AddPage (Some 0) None, AddPage (Some 3) (Some 0), AddPage (Some 2) (Some 3)]"

definition groups_added_below_shared :: "operation list" where
  "groups_added_below_shared =
     [AddPage (Some 7) None, AddPage (Some 0) (Some 7), AddPage (Some 6) (Some 7)]"

definition groups_below_shared :: tree_model where
  "groups_below_shared = [Row False (Some 7) [Row False (Some 0) [], Row False (Some 6) []]]"

text \<open>Runs of the operations for the examples; the first one makes the sidebar above.\<close>

definition sidebar_session :: "operation list" where
  "sidebar_session =
     [AddPage (Some 7) None, AddPage (Some 1) None, AddPage (Some 11) None, AddPage (Some 0) None,
      AddPage (Some 6) None,
      AddPage (Some 2) (Some 0), AddPage (Some 3) (Some 0),
      AddPage (Some 5) (Some 1), AddPage (Some 4) (Some 1), AddPage (Some 8) (Some 1),
      AddPage (Some 9) (Some 7), AddPage (Some 10) (Some 7),
      SetPlayingSource (Some 2)]"

definition two_rows_of_one_page :: "operation list" where
  "two_rows_of_one_page =
     [AddPage (Some 0) None, AddPage (Some 2) (Some 0), AddPage (Some 2) (Some 0),
      SetPlayingSource (Some 2)]"

definition playing_row_moved :: "operation list" where
  "playing_row_moved =
     [AddPage (Some 1) None, AddPage (Some 5) (Some 1), AddPage (Some 2) (Some 1),
      SetPlayingSource (Some 2), SetPlayingSource (Some 5)]"

definition group_below_group :: "operation list" where
  "group_below_group = [AddPage (Some 0) None, AddPage (Some 7) (Some 0)]"

definition group_added_twice :: "operation list" where
  "group_added_twice = [AddPage (Some 0) None, AddPage (Some 2) (Some 0), AddPage (Some 0) None]"

definition listening_session :: "operation list" where
  "listening_session =
     [AddPage (Some 1) None, AddPage (Some 0) None,
      AddPage (Some 2) (Some 0), AddPage (Some 3) (Some 0), AddPage (Some 5) (Some 1),
      SetPlayingSource (Some 2), SetPlayingSource (Some 5), RemovePage (Some 3)]"


section \<open>Lemmas on the tree store\<close>

lemma all_rows_append: "all_rows (xs @ ys) = all_rows xs @ all_rows ys"
  by (induction xs rule: all_rows.induct) simp_all

lemma all_rows_single: "all_rows [r] = row_info r # all_rows (row_children r)"
  by (cases r) (simp add: row_info_def)

lemma all_rows_Cons: "all_rows (x # xs) = all_rows [x] @ all_rows xs"
  by (cases x) simp

lemma length_modify_row [simp]: "length (modify_row f rows p) = length rows"
  by (induction f rows p rule: modify_row.induct) simp_all

lemma modify_row_Nil_iff [simp]: "modify_row f rows p = [] \<longleftrightarrow> rows = []"
  using length_modify_row [of f rows p] by (metis length_0_conv)

lemma all_rows_update:
  assumes "i < length rows"
  shows "mset (all_rows (rows[i := x])) + mset (all_rows [rows ! i])
         = mset (all_rows rows) + mset (all_rows [x])"
proof -
  have a: "rows = take i rows @ [rows ! i] @ drop (Suc i) rows"
    using assms by (simp add: id_take_nth_drop [symmetric])
  have b: "rows[i := x] = take i rows @ [x] @ drop (Suc i) rows"
    using assms by (simp add: upd_conv_take_nth_drop)
  have "mset (all_rows rows) = mset (all_rows (take i rows)) + mset (all_rows [rows ! i])
          + mset (all_rows (drop (Suc i) rows))"
    by (subst a) (simp only: all_rows_append mset_append add.assoc)
  moreover have "mset (all_rows (rows[i := x])) = mset (all_rows (take i rows)) + mset (all_rows [x])
          + mset (all_rows (drop (Suc i) rows))"
    by (subst b) (simp only: all_rows_append mset_append add.assoc)
  ultimately show ?thesis by simp
qed

lemma all_rows_modify_row:
  "get_row rows p = Some r \<Longrightarrow>
   mset (all_rows (modify_row f rows p)) + mset (all_rows [r])
   = mset (all_rows rows) + mset (all_rows [f r])"
proof (induction f rows p rule: modify_row.induct)
  case (1 f rows)
  then show ?case by simp
next
  case (2 f rows i)
  then show ?case by (auto simp: all_rows_update split: if_splits)
next
  case (3 f rows i v va)
  let ?q = "v # va"
  from "3.prems" have i: "i < length rows"
    and g: "get_row (row_children (rows ! i)) ?q = Some r"
    by (auto split: if_splits)
  let ?c = "row_children (rows ! i)"
  let ?c' = "modify_row f ?c ?q"
  let ?x = "Row (row_playing (rows ! i)) (row_page (rows ! i)) ?c'"
  have ih: "mset (all_rows ?c') + mset (all_rows [r]) = mset (all_rows ?c) + mset (all_rows [f r])"
    using "3.IH" [OF i g] .
  have u: "mset (all_rows (rows[i := ?x])) + mset (all_rows [rows ! i])
         = mset (all_rows rows) + mset (all_rows [?x])"
    using i by (rule all_rows_update)
  have e1: "mset (all_rows [rows ! i]) = {#row_info (rows ! i)#} + mset (all_rows ?c)"
    by (simp add: all_rows_single)
  have e2: "mset (all_rows [?x]) = {#row_info (rows ! i)#} + mset (all_rows ?c')"
    by (simp add: all_rows_single row_info_def)
  have "mset (all_rows (rows[i := ?x])) + mset (all_rows ?c)
        = mset (all_rows rows) + mset (all_rows ?c')"
    using u unfolding e1 e2 by simp
  then have "mset (all_rows (rows[i := ?x])) + mset (all_rows ?c) + mset (all_rows [r])
        = mset (all_rows rows) + (mset (all_rows ?c') + mset (all_rows [r]))"
    by (simp add: add.assoc)
  then have "mset (all_rows (rows[i := ?x])) + mset (all_rows [r]) + mset (all_rows ?c)
        = mset (all_rows rows) + mset (all_rows [f r]) + mset (all_rows ?c)"
    unfolding ih by (simp add: ac_simps)
  then have "mset (all_rows (rows[i := ?x])) + mset (all_rows [r])
        = mset (all_rows rows) + mset (all_rows [f r])"
    by (simp only: add_right_cancel)
  then show ?case using i by simp
qed

lemma get_row_in_all_rows:
  "get_row rows p = Some r \<Longrightarrow> row_info r \<in> set (all_rows rows)"
proof (induction rows p rule: get_row.induct)
  case (1 rows)
  then show ?case by simp
next
  case (2 rows i)
  then have i: "i < length rows" and r: "r = rows ! i" by (auto split: if_splits)
  have "rows = take i rows @ [r] @ drop (Suc i) rows"
    using i r by (simp add: id_take_nth_drop [symmetric])
  then have "all_rows rows = all_rows (take i rows) @ all_rows [r] @ all_rows (drop (Suc i) rows)"
    by (metis all_rows_append)
  then show ?case by (simp add: all_rows_single)
next
  case (3 rows i v va)
  then have i: "i < length rows" and g: "get_row (row_children (rows ! i)) (v # va) = Some r"
    by (auto split: if_splits)
  have "rows = take i rows @ [rows ! i] @ drop (Suc i) rows"
    using i by (simp add: id_take_nth_drop [symmetric])
  then have "all_rows rows = all_rows (take i rows) @ all_rows [rows ! i] @ all_rows (drop (Suc i) rows)"
    by (metis all_rows_append)
  moreover have "row_info r \<in> set (all_rows (row_children (rows ! i)))"
    using "3.IH" [OF i g] .
  ultimately show ?case by (simp add: all_rows_single)
qed

lemma map_playing_Nil_iff [simp]: "map_playing g rows = [] \<longleftrightarrow> rows = []"
  by (cases "(g, rows)" rule: map_playing.cases) simp_all

lemma all_rows_map_playing:
  "all_rows (map_playing g rows) = map (\<lambda>(b, pg, hc). (g b pg, pg, hc)) (all_rows rows)"
  by (induction g rows rule: map_playing.induct) simp_all

lemma modify_row_same:
  "(\<And>r. get_row rows p = Some r \<Longrightarrow> f r = r) \<Longrightarrow> modify_row f rows p = rows"
proof (induction f rows p rule: modify_row.induct)
  case (1 f rows)
  then show ?case by simp
next
  case (2 f rows i)
  then show ?case by simp
next
  case (3 f rows i v va)
  show ?case
  proof (cases "i < length rows")
    case True
    have "modify_row f (row_children (rows ! i)) (v # va) = row_children (rows ! i)"
      using "3.IH" [OF True] "3.prems" True by simp
    then show ?thesis using True by (simp add: list_update_same_conv)
  next
    case False
    then show ?thesis by simp
  qed
qed

lemma modify_row_cong:
  "(\<And>r. get_row rows p = Some r \<Longrightarrow> f r = g r) \<Longrightarrow> modify_row f rows p = modify_row g rows p"
proof (induction f rows p rule: modify_row.induct)
  case (1 f rows)
  then show ?case by simp
next
  case (2 f rows i)
  then show ?case by simp
next
  case (3 f rows i v va)
  show ?case
  proof (cases "i < length rows")
    case True
    have "modify_row f (row_children (rows ! i)) (v # va)
          = modify_row g (row_children (rows ! i)) (v # va)"
      using "3.IH" [OF True] "3.prems" True by simp
    then show ?thesis using True by simp
  next
    case False
    then show ?thesis by simp
  qed
qed

lemma modify_row_modify_row:
  "modify_row f (modify_row g rows p) p = modify_row (\<lambda>r. f (g r)) rows p"
proof (induction g rows p rule: modify_row.induct)
  case (1 f rows)
  then show ?case by simp
next
  case (2 f rows i)
  then show ?case by simp
next
  case (3 f rows i v va)
  then show ?case by simp
qed

lemma get_row_modify_row:
  "get_row rows p = Some r \<Longrightarrow> get_row (modify_row f rows p) p = Some (f r)"
  by (induction f rows p rule: modify_row.induct) (auto split: if_splits)

lemma get_row_snoc:
  "p \<noteq> [] \<Longrightarrow> get_row rows (p @ [k]) = Some r \<Longrightarrow>
   \<exists>prow. get_row rows p = Some prow \<and> k < length (row_children prow) \<and> row_children prow ! k = r"
proof (induction rows p rule: get_row.induct)
  case (1 rows)
  then show ?case by simp
next
  case (2 rows i)
  then show ?case by (auto split: if_splits)
next
  case (3 rows i v va)
  then show ?case by (auto split: if_splits)
qed

lemma get_row_append1:
  "get_row rows p = Some prow \<Longrightarrow>
   get_row rows (p @ [k]) = (if k < length (row_children prow) then Some (row_children prow ! k) else None)"
proof (induction rows p rule: get_row.induct)
  case (1 rows)
  then show ?case by simp
next
  case (2 rows i)
  then show ?case by (auto split: if_splits)
next
  case (3 rows i v va)
  then show ?case by (auto split: if_splits)
qed

lemma get_row_children_at:
  assumes "get_row st iter = Some r"
  shows "\<exists>sibs. children_at st (butlast iter) = Some sibs \<and> last iter < length sibs
           \<and> sibs ! last iter = r \<and> iter \<noteq> []"
proof -
  from assms have ne: "iter \<noteq> []" by auto
  then obtain pp k where it: "iter = pp @ [k]" by (cases iter rule: rev_cases) auto
  show ?thesis
  proof (cases "pp = []")
    case True
    with assms it show ?thesis by (auto simp: children_at_def split: if_splits)
  next
    case False
    from get_row_snoc [OF False assms [unfolded it]] False it show ?thesis
      by (auto simp: children_at_def)
  qed
qed

lemma get_row_of_children_at:
  assumes "children_at m pp = Some sibs"
  shows "get_row m (pp @ [i]) = (if i < length sibs then Some (sibs ! i) else None)"
proof (cases "pp = []")
  case True
  with assms show ?thesis by (simp add: children_at_def)
next
  case False
  with assms obtain prow where "get_row m pp = Some prow" "row_children prow = sibs"
    by (auto simp: children_at_def)
  with get_row_append1 [of m pp prow i] show ?thesis by simp
qed

lemma modify_row_set_after_append:
  "get_row rows p = Some r \<Longrightarrow>
   modify_row (\<lambda>x. Row b pg (row_children x))
     (modify_row (\<lambda>x. Row (row_playing x) (row_page x) (row_children x @ [Row False None []])) rows p)
     (p @ [length (row_children r)])
   = modify_row (\<lambda>x. Row (row_playing x) (row_page x) (row_children x @ [Row b pg []])) rows p"
proof (induction rows p rule: get_row.induct)
  case (1 rows)
  then show ?case by simp
next
  case (2 rows i)
  then show ?case by (auto split: if_splits)
next
  case (3 rows i v va)
  then show ?case by (auto split: if_splits)
qed

lemma remove_child_sel [simp]:
  "row_playing (remove_child k x) = row_playing x"
  "row_page (remove_child k x) = row_page x"
  "row_children (remove_child k x) = delete_nth k (row_children x)"
  by (simp_all add: remove_child_def)

lemma remove_child_eq:
  "(\<lambda>r. Row (row_playing r) (row_page r) (delete_nth k (row_children r))) = remove_child k"
  by (simp add: remove_child_def fun_eq_iff)

lemma insert_child_sel [simp]:
  "row_playing (insert_child n page x) = row_playing x"
  "row_page (insert_child n page x) = row_page x"
  "row_children (insert_child n page x) = insert_at n (Row False page []) (row_children x)"
  by (simp_all add: insert_child_def)

lemma all_rows_delete_nth:
  assumes "k < length rows"
  shows "mset (all_rows (delete_nth k rows)) + mset (all_rows [rows ! k]) = mset (all_rows rows)"
proof -
  have "rows = take k rows @ [rows ! k] @ drop (Suc k) rows"
    using assms by (simp add: id_take_nth_drop [symmetric])
  then have "all_rows rows = all_rows (take k rows) @ all_rows [rows ! k] @ all_rows (drop (Suc k) rows)"
    by (metis all_rows_append)
  then show ?thesis by (simp add: delete_nth_def all_rows_append)
qed

lemma all_rows_remove_child:
  assumes "get_row rows p = Some r" and "k < length (row_children r)"
  shows "mset (all_rows (modify_row (remove_child k) rows p)) + {#row_info r#}
           + mset (all_rows [row_children r ! k])
         = mset (all_rows rows)
           + {#(row_playing r, row_page r, delete_nth k (row_children r) \<noteq> [])#}"
proof -
  have "mset (all_rows (modify_row (remove_child k) rows p)) + mset (all_rows [r])
        = mset (all_rows rows) + mset (all_rows [remove_child k r])"
    using assms(1) by (rule all_rows_modify_row)
  moreover have "mset (all_rows (row_children r))
        = mset (all_rows (delete_nth k (row_children r))) + mset (all_rows [row_children r ! k])"
    using all_rows_delete_nth [OF assms(2)] by simp
  ultimately have "mset (all_rows (modify_row (remove_child k) rows p)) + {#row_info r#}
           + mset (all_rows [row_children r ! k]) + mset (all_rows (delete_nth k (row_children r)))
         = mset (all_rows rows)
           + {#(row_playing r, row_page r, delete_nth k (row_children r) \<noteq> [])#}
           + mset (all_rows (delete_nth k (row_children r)))"
    by (simp add: all_rows_single row_info_def)
  then show ?thesis by (simp only: add_right_cancel)
qed

lemma all_rows_insert_at:
  "mset (all_rows (insert_at n x xs)) = mset (all_rows xs) + mset (all_rows [x])"
proof -
  have "mset (all_rows (insert_at n x xs))
        = mset (all_rows (take n xs)) + mset (all_rows [x]) + mset (all_rows (drop n xs))"
    unfolding insert_at_def
    by (subst all_rows_append, subst all_rows_Cons [of x "drop n xs"]) simp
  moreover have "mset (all_rows (take n xs)) + mset (all_rows (drop n xs)) = mset (all_rows xs)"
    using all_rows_append [of "take n xs" "drop n xs"] by (simp flip: mset_append)
  ultimately show ?thesis by simp
qed

lemma insert_at_not_Nil [simp]: "insert_at n x xs \<noteq> []"
  by (simp add: insert_at_def)

lemma insert_at_end: "insert_at (length xs) x xs = xs @ [x]"
  by (simp add: insert_at_def)

lemma insert_at_clip: "insert_at n x xs = insert_at (min n (length xs)) x xs"
  by (cases "n \<le> length xs") (simp_all add: insert_at_def min_def)

lemma delete_nth_end: "delete_nth (length xs) (xs @ [x]) = xs"
  by (simp add: delete_nth_def)

lemma all_rows_insert_new:
  "mset (all_rows (insert_at n (Row False page []) st)) = mset (all_rows st) + {#(False, page, False)#}"
  by (simp add: all_rows_insert_at)

lemma all_rows_insert_child:
  assumes "get_row rows p = Some r"
  shows "mset (all_rows (modify_row (insert_child n page) rows p)) + {#row_info r#}
         = mset (all_rows rows) + {#(row_playing r, row_page r, True), (False, page, False)#}"
  using all_rows_modify_row [OF assms, of "insert_child n page"]
  by (simp add: all_rows_single row_info_def all_rows_insert_new)

lemma all_rows_update_children:
  assumes "children_at st pp = Some sibs"
    and "mset (all_rows (f sibs)) = mset (all_rows sibs)"
    and "f sibs = [] \<longleftrightarrow> sibs = []"
  shows "mset (all_rows (update_children f st pp)) = mset (all_rows st)"
proof (cases "pp = []")
  case True
  with assms show ?thesis by (simp add: children_at_def update_children_def)
next
  case False
  with assms(1) obtain prow where p: "get_row st pp = Some prow" "row_children prow = sibs"
    by (auto simp: children_at_def)
  from all_rows_modify_row [OF p(1), of "\<lambda>r. Row (row_playing r) (row_page r) (f (row_children r))"]
  show ?thesis
    using False assms(2,3) p(2)
    by (simp add: update_children_def all_rows_single row_info_def)
qed

lemma set_all_rows_from_mset:
  assumes "mset (all_rows model') + X = mset (all_rows model) + Y"
  shows "set (all_rows model') \<subseteq> set (all_rows model) \<union> set_mset Y"
proof
  fix x
  assume "x \<in> set (all_rows model')"
  then have "x \<in># mset (all_rows model') + X" by simp
  then have "x \<in># mset (all_rows model) + Y" by (simp only: assms)
  then show "x \<in> set (all_rows model) \<union> set_mset Y" by auto
qed

lemma mset_cells_of:
  "mset (cells_of model) = image_mset (\<lambda>(playing, page, has_child). (playing, page)) (mset (all_rows model))"
  by (simp add: cells_of_def)

lemma mset_pages_of:
  "mset (pages_of model) = image_mset (\<lambda>x. fst (snd x)) (mset (all_rows model))"
  by (simp add: pages_of_def split_def)

lemma same_page_same_row:
  assumes "count (mset (pages_of model)) g \<le> 1"
    and "x \<in> set (all_rows model)" and "y \<in> set (all_rows model)"
    and "fst (snd x) = g" and "fst (snd y) = g"
  shows "x = y"
proof (rule ccontr)
  assume ne: "x \<noteq> y"
  let ?M = "mset (all_rows model)"
  have x: "x \<in># ?M" and y: "y \<in># ?M" using assms(2,3) by simp_all
  have M: "?M = add_mset x (?M - {#x#})" using x by simp
  have "y \<in># ?M - {#x#}" using y ne by (simp add: in_diff_count)
  then have "g \<in># image_mset (\<lambda>x. fst (snd x)) (?M - {#x#})"
    using assms(5) by force
  then have "1 \<le> count (image_mset (\<lambda>x. fst (snd x)) (?M - {#x#})) g"
    by (simp add: Suc_le_eq)
  moreover have "mset (pages_of model) = add_mset g (image_mset (\<lambda>x. fst (snd x)) (?M - {#x#}))"
    unfolding mset_pages_of by (subst M) (simp add: assms(4))
  ultimately have "2 \<le> count (mset (pages_of model)) g" by simp
  with assms(1) show False by simp
qed


subsection \<open>The sorted store\<close>

lemma sort_iter_changed_cases:
  assumes "gtk_tree_store_sort_iter_changed func st iter = Inr (st', iter')"
  shows "(st' = st \<and> iter' = iter)
       \<or> (\<exists>r location. get_row st iter = Some r
             \<and> in_sorted_position func st iter = Inr False
             \<and> st' = update_children (\<lambda>rows. insert_at location r (delete_nth (last iter) rows))
                       st (butlast iter)
             \<and> iter' = butlast iter @ [location])"
  using assms
  by (auto simp: gtk_tree_store_sort_iter_changed_def Let_def
      split: option.splits sum.splits bool.splits if_splits)

lemma all_rows_sort_iter_changed:
  assumes "gtk_tree_store_sort_iter_changed func st iter = Inr (st', iter')"
  shows "mset (all_rows st') = mset (all_rows st)"
  using sort_iter_changed_cases [OF assms]
proof (elim disjE exE conjE)
  fix r location
  assume r: "get_row st iter = Some r"
    and st': "st' = update_children (\<lambda>rows. insert_at location r (delete_nth (last iter) rows))
                       st (butlast iter)"
  from get_row_children_at [OF r] obtain sibs
    where s: "children_at st (butlast iter) = Some sibs" "last iter < length sibs"
      "sibs ! last iter = r" by blast
  have "mset (all_rows (insert_at location r (delete_nth (last iter) sibs))) = mset (all_rows sibs)"
    using all_rows_delete_nth [OF s(2)] s(3) by (simp add: all_rows_insert_at)
  moreover have "sibs \<noteq> []" using s(2) by auto
  ultimately show ?thesis unfolding st' by (intro all_rows_update_children [OF s(1)]) simp_all
qed simp

lemma store_set_new_top:
  assumes "gtk_tree_store_set func (st @ [Row False None []]) [length st] playing page = Inr (st', iter')"
  shows "\<exists>n. st' = insert_at n (Row playing page []) st"
proof -
  let ?st1 = "st @ [Row playing page []]"
  have m: "modify_row (\<lambda>r. Row playing page (row_children r)) (st @ [Row False None []]) [length st] = ?st1"
    by simp
  from assms have "gtk_tree_store_sort_iter_changed func ?st1 [length st] = Inr (st', iter')"
    by (simp only: gtk_tree_store_set_def m)
  from sort_iter_changed_cases [OF this] show ?thesis
  proof (elim disjE exE conjE)
    assume "st' = ?st1"
    then have "st' = insert_at (length st) (Row playing page []) st" by (simp add: insert_at_end)
    then show ?thesis ..
  next
    fix r location
    assume r: "get_row ?st1 [length st] = Some r"
      and st': "st' = update_children (\<lambda>rows. insert_at location r (delete_nth (last [length st]) rows))
                        ?st1 (butlast [length st])"
    from r have "r = Row playing page []" by simp
    with st' have "st' = insert_at location (Row playing page []) st"
      by (simp add: update_children_def delete_nth_end)
    then show ?thesis ..
  qed
qed

lemma store_set_new_child:
  assumes r: "get_row st it = Some r"
    and set: "gtk_tree_store_set func
           (modify_row (\<lambda>x. Row (row_playing x) (row_page x) (row_children x @ [Row False None []])) st it)
           (it @ [length (row_children r)]) False page = Inr (st', iter')"
  shows "\<exists>n. st' = modify_row (insert_child n page) st it"
proof -
  let ?a = "\<lambda>x. Row (row_playing x) (row_page x) (row_children x @ [Row False page []])"
  let ?st1 = "modify_row ?a st it"
  let ?k = "length (row_children r)"
  from r have ne: "it \<noteq> []" by auto
  have g1: "get_row ?st1 it = Some (?a r)" using r by (rule get_row_modify_row)
  from set have "gtk_tree_store_sort_iter_changed func ?st1 (it @ [?k]) = Inr (st', iter')"
    by (simp only: gtk_tree_store_set_def modify_row_set_after_append [OF r])
  from sort_iter_changed_cases [OF this] show ?thesis
  proof (elim disjE exE conjE)
    assume "st' = ?st1"
    moreover have "?st1 = modify_row (insert_child ?k page) st it"
      using r by (intro modify_row_cong) (simp add: insert_child_def insert_at_end)
    ultimately show ?thesis by blast
  next
    fix r0 location
    assume r0: "get_row ?st1 (it @ [?k]) = Some r0"
      and st': "st' = update_children (\<lambda>rows. insert_at location r0 (delete_nth (last (it @ [?k])) rows))
                        ?st1 (butlast (it @ [?k]))"
    from r0 get_row_append1 [OF g1, of ?k] have "r0 = Row False page []" by simp
    with st' ne have "st' = modify_row (\<lambda>x. Row (row_playing (?a x)) (row_page (?a x))
                 (insert_at location (Row False page []) (delete_nth ?k (row_children (?a x))))) st it"
      by (simp add: update_children_def modify_row_modify_row)
    also have "\<dots> = modify_row (insert_child location page) st it"
      using r by (intro modify_row_cong) (simp add: insert_child_def delete_nth_end)
    finally show ?thesis by blast
  qed
qed


subsection \<open>Traversals that read\<close>

lemma Nil_notin_iters_from: "[] \<notin> set (iters_from i rows)"
  by (induction i rows rule: iters_from.induct) auto

lemma iters_from_valid:
  "p \<in> set (iters_from i rows) \<Longrightarrow> \<exists>j q. p = (i + j) # q \<and> get_row rows (j # q) \<noteq> None"
proof (induction i rows arbitrary: p rule: iters_from.induct)
  case (1 i)
  then show ?case by simp
next
  case (2 i playing page children rs)
  from "2.prems" consider "p = [i]" | "p \<in> (#) i ` set (iters_from 0 children)"
    | "p \<in> set (iters_from (Suc i) rs)" by auto
  then show ?case
  proof cases
    case 1
    then show ?thesis by (intro exI [of _ 0] exI [of _ "[]"]) simp
  next
    case 2
    then obtain q where q: "q \<in> set (iters_from 0 children)" and p: "p = i # q" by auto
    from "2.IH"(1) [OF q] obtain j q' where "q = j # q'" "get_row children (j # q') \<noteq> None"
      by auto
    then show ?thesis using p by (intro exI [of _ 0] exI [of _ "q"]) simp
  next
    case 3
    from "2.IH"(2) [OF 3] obtain j q where j: "p = (Suc i + j) # q" "get_row rs (j # q) \<noteq> None"
      by auto
    then have "get_row (Row playing page children # rs) (Suc j # q) \<noteq> None"
      by (cases q) (auto split: if_splits)
    then show ?thesis using j by (intro exI [of _ "Suc j"] exI [of _ q]) simp
  qed
qed

lemma iters_from_0_valid: "p \<in> set (iters_from 0 rows) \<Longrightarrow> get_row rows p \<noteq> None"
  using iters_from_valid [of p 0 rows] by auto

lemma iters_from_complete:
  "get_row rows (j # q) = Some r \<Longrightarrow> (i + j) # q \<in> set (iters_from i rows)"
proof (induction i rows arbitrary: j q rule: iters_from.induct)
  case (1 i)
  then show ?case by (cases q) simp_all
next
  case (2 i playing page children rs)
  show ?case
  proof (cases j)
    case 0
    show ?thesis
    proof (cases q)
      case Nil
      with 0 show ?thesis by simp
    next
      case (Cons k q')
      with 0 "2.prems" have "get_row children (k # q') = Some r" by simp
      from "2.IH"(1) [OF this] 0 Cons show ?thesis by simp
    qed
  next
    case (Suc j')
    with "2.prems" have "get_row rs (j' # q) = Some r" by (cases q) (auto split: if_splits)
    from "2.IH"(2) [OF this] Suc show ?thesis by simp
  qed
qed

lemma foldl_modify_row_below:
  assumes "i < length rows" and "[] \<notin> set qs"
  shows "foldl (modify_row f) rows (map ((#) i) qs) =
         rows[i := Row (row_playing (rows ! i)) (row_page (rows ! i))
                     (foldl (modify_row f) (row_children (rows ! i)) qs)]"
  using assms
proof (induction qs arbitrary: rows)
  case Nil
  then show ?case by (simp add: list_update_same_conv)
next
  case (Cons q qs)
  then obtain v va where q: "q = v # va" by (cases q) auto
  let ?rows = "modify_row f rows (i # q)"
  have l: "i < length ?rows" using Cons.prems by simp
  have n: "[] \<notin> set qs" using Cons.prems by simp
  have m: "?rows = rows[i := Row (row_playing (rows ! i)) (row_page (rows ! i))
                     (modify_row f (row_children (rows ! i)) q)]"
    using Cons.prems q by simp
  show ?case
    using Cons.IH [OF l n] Cons.prems(1) by (simp add: m)
qed

lemma foldl_modify_row_iters:
  "length pre = i \<Longrightarrow>
   foldl (modify_row (\<lambda>r. Row (g (row_playing r) (row_page r)) (row_page r) (row_children r)))
     (pre @ rows) (iters_from i rows) = pre @ map_playing g rows"
proof (induction i rows arbitrary: pre rule: iters_from.induct)
  case (1 i)
  then show ?case by simp
next
  case (2 i playing page children rs)
  let ?f = "\<lambda>r. Row (g (row_playing r) (row_page r)) (row_page r) (row_children r)"
  let ?r = "Row (g playing page) page children"
  have s1: "modify_row ?f (pre @ Row playing page children # rs) [i] = pre @ ?r # rs"
    using "2.prems" by (auto simp: nth_append list_update_append)
  have c: "foldl (modify_row ?f) children (iters_from 0 children) = map_playing g children"
    using "2.IH"(1) [of "[]"] by simp
  have s2: "foldl (modify_row ?f) (pre @ ?r # rs) (map ((#) i) (iters_from 0 children))
            = pre @ Row (g playing page) page (map_playing g children) # rs"
    using "2.prems" [symmetric]
    by (subst foldl_modify_row_below) (simp_all add: Nil_notin_iters_from c nth_append list_update_append)
  have s3: "foldl (modify_row ?f) ((pre @ [Row (g playing page) page (map_playing g children)]) @ rs)
              (iters_from (Suc i) rs)
            = (pre @ [Row (g playing page) page (map_playing g children)]) @ map_playing g rs"
    using "2.prems" by (intro "2.IH"(2)) simp
  have "foldl (modify_row ?f) (pre @ Row playing page children # rs)
          (iters_from i (Row playing page children # rs))
        = foldl (modify_row ?f)
            (foldl (modify_row ?f) (modify_row ?f (pre @ Row playing page children # rs) [i])
               (map ((#) i) (iters_from 0 children)))
            (iters_from (Suc i) rs)"
    by (simp only: iters_from.simps foldl_append foldl.simps append.simps)
  also have "\<dots> = (pre @ [Row (g playing page) page (map_playing g children)]) @ map_playing g rs"
    using s3 by (simp only: s1 s2 append_assoc append.simps)
  finally show ?case by simp
qed

lemma match_page_to_iter_step:
  "match_page_to_iter model p dpi =
     (if gtk_tree_model_get_page model p = dpi_page dpi
      then (True, model, dpi\<lparr>dpi_iter := p, dpi_found := True\<rparr>)
      else (dpi_found dpi, model, dpi))"
  by (simp add: match_page_to_iter_def)

lemma foreach_match_page_to_iter:
  assumes "foreach_iters match_page_to_iter ps model dpi = (model', dpi')" and "\<not> dpi_found dpi"
  shows "model' = model \<and>
         (if \<exists>p \<in> set ps. gtk_tree_model_get_page model p = dpi_page dpi
          then dpi_found dpi' \<and> dpi_iter dpi' \<in> set ps
               \<and> gtk_tree_model_get_page model (dpi_iter dpi') = dpi_page dpi
          else dpi' = dpi)"
  using assms
proof (induction ps arbitrary: dpi)
  case Nil
  then show ?case by simp
next
  case (Cons p ps)
  show ?case
  proof (cases "gtk_tree_model_get_page model p = dpi_page dpi")
    case True
    then show ?thesis using Cons.prems by (auto simp: match_page_to_iter_step)
  next
    case False
    then have "foreach_iters match_page_to_iter (p # ps) model dpi
               = foreach_iters match_page_to_iter ps model dpi"
      using Cons.prems(2) by (simp add: match_page_to_iter_step)
    with Cons.prems(1) have "foreach_iters match_page_to_iter ps model dpi = (model', dpi')"
      by simp
    from Cons.IH [OF this Cons.prems(2)] False show ?thesis by auto
  qed
qed

lemma find_in_real_model_True:
  assumes "find_in_real_model s page iter0 = (True, iter)"
  shows "\<exists>r. get_row (store s) iter = Some r \<and> row_page r = page"
proof -
  let ?d = "\<lparr>dpi_page = page, dpi_iter = [], dpi_found = False\<rparr>"
  obtain m d where fe: "foreach_iters match_page_to_iter (iters_from 0 (store s)) (store s) ?d = (m, d)"
    by (cases "foreach_iters match_page_to_iter (iters_from 0 (store s)) (store s) ?d") auto
  from assms fe have f: "dpi_found d" and i: "dpi_iter d = iter"
    by (auto simp: find_in_real_model_def gtk_tree_model_foreach_def Let_def split: if_splits)
  from foreach_match_page_to_iter [OF fe] f
  have "dpi_iter d \<in> set (iters_from 0 (store s))"
    and "gtk_tree_model_get_page (store s) (dpi_iter d) = page"
    by (auto split: if_splits)
  with i iters_from_0_valid [of iter "store s"] show ?thesis
    by (auto simp: gtk_tree_model_get_page_def)
qed


subsection \<open>Traversals that write\<close>

lemma gtk_tree_model_foreach_helper_unfold:
  "gtk_tree_model_foreach_helper func model iter user_data =
     (case func model iter user_data of
        Inl e \<Rightarrow> Some (Inl e)
      | Inr (stop, model1, iter1, user_data1) \<Rightarrow>
          if stop then Some (Inr (True, model1, user_data1))
          else
            (case (if gtk_tree_model_iter_has_child model1 iter1
                   then gtk_tree_model_foreach_helper func model1 (iter1 @ [0]) user_data1
                   else Some (Inr (False, model1, user_data1))) of
               None \<Rightarrow> None
             | Some (Inl e) \<Rightarrow> Some (Inl e)
             | Some (Inr (stop2, model2, user_data2)) \<Rightarrow>
                 if stop2 then Some (Inr (True, model2, user_data2))
                 else (case gtk_tree_model_iter_next model2 iter1 of
                         None \<Rightarrow> Some (Inr (False, model2, user_data2))
                       | Some next \<Rightarrow> gtk_tree_model_foreach_helper func model2 next user_data2)))"
  by (subst gtk_tree_model_foreach_helper.simps)
    (auto split: sum.splits option.splits prod.splits Option.bind_splits)

lemma foreach_helper_preserves:
  assumes step: "\<And>model iter d stop model1 iter1 d1.
             I model \<Longrightarrow> func model iter d = Inr (stop, model1, iter1, d1) \<Longrightarrow> I model1"
    and run: "gtk_tree_model_foreach_helper func model iter d = Some (Inr (stop, model', d'))"
    and init: "I model"
  shows "I model'"
proof -
  have "func' = func \<longrightarrow> I model \<longrightarrow> (\<forall>stop m' d'. y = Inr (stop, m', d') \<longrightarrow> I m')"
    if "gtk_tree_model_foreach_helper func' model iter d = Some y" for func' model iter d y
    using that
  proof (induction rule: gtk_tree_model_foreach_helper.raw_induct [rotated 1, consumes 1])
    case (1 helper func' model iter d y)
    show ?case
    proof (intro impI allI)
      fix stop m' d'
      assume f: "func' = func" and i: "I model" and y: "y = Inr (stop, m', d')"
      show "I m'"
      proof (cases "func model iter d")
        case (Inl e)
        with "1.hyps" f y show ?thesis by simp
      next
        case (Inr res)
        obtain stop1 m1 it1 d1 where res: "res = (stop1, m1, it1, d1)" by (cases res) auto
        from step [OF i Inr [unfolded res]] have i1: "I m1" .
        show ?thesis
        proof (cases stop1)
          case True
          with "1.hyps" f y Inr res i1 show ?thesis by simp
        next
          case False
          let ?below = "if gtk_tree_model_iter_has_child m1 it1 then helper func m1 (it1 @ [0]) d1
                        else Some (Inr (False, m1, d1))"
          from "1.hyps" f y Inr res False obtain below
            where b: "?below = Some below"
              and r: "(case below of
                         Inl e \<Rightarrow> Some (Inl e)
                       | Inr (stop2, model2, user_data2) \<Rightarrow>
                           if stop2 then Some (Inr (True, model2, user_data2))
                           else (case gtk_tree_model_iter_next model2 it1 of
                                   None \<Rightarrow> Some (Inr (False, model2, user_data2))
                                 | Some next \<Rightarrow> helper func model2 next user_data2))
                      = Some (Inr (stop, m', d'))"
            by (auto simp: Option.bind_eq_Some_conv)
          show ?thesis
          proof (cases below)
            case (Inl e)
            with r show ?thesis by simp
          next
            case (Inr res2)
            obtain stop2 m2 d2 where res2: "res2 = (stop2, m2, d2)" by (cases res2) auto
            have i2: "I m2"
            proof (cases "gtk_tree_model_iter_has_child m1 it1")
              case True
              with b have "helper func m1 (it1 @ [0]) d1 = Some below" by simp
              from "1.IH" [OF this] i1 Inr res2 show ?thesis by simp
            next
              case False
              with b Inr res2 i1 show ?thesis by simp
            qed
            show ?thesis
            proof (cases stop2)
              case True
              with r Inr res2 i2 show ?thesis by simp
            next
              case False
              show ?thesis
              proof (cases "gtk_tree_model_iter_next m2 it1")
                case None
                with r Inr res2 False i2 show ?thesis by simp
              next
                case (Some nxt)
                with r Inr res2 False have "helper func m2 nxt d2 = Some (Inr (stop, m', d'))"
                  by simp
                from "1.IH" [OF this] i2 show ?thesis by simp
              qed
            qed
          qed
        qed
      qed
    qed
  qed
  from this [OF run] init show ?thesis by simp
qed

lemma all_rows_set_playing:
  "image_mset snd (mset (all_rows (modify_row (\<lambda>r. Row playing (row_page r) (row_children r)) m it)))
   = image_mset snd (mset (all_rows m))"
proof (cases "get_row m it")
  case None
  then have "modify_row (\<lambda>r. Row playing (row_page r) (row_children r)) m it = m"
    by (intro modify_row_same) simp
  then show ?thesis by simp
next
  case (Some r)
  from all_rows_modify_row [OF Some, of "\<lambda>r. Row playing (row_page r) (row_children r)"]
  have "image_mset snd (mset (all_rows (modify_row (\<lambda>r. Row playing (row_page r) (row_children r)) m it))
           + mset (all_rows [r]))
        = image_mset snd (mset (all_rows m)
           + mset (all_rows [Row playing (row_page r) (row_children r)]))"
    by simp
  then show ?thesis by (simp add: all_rows_single row_info_def)
qed

lemma set_playing_flag_rows:
  assumes "set_playing_flag func h m it source = Inr (stop, m1, it1, d1)"
  shows "image_mset snd (mset (all_rows m1)) = image_mset snd (mset (all_rows m))"
proof (cases "m1 = m")
  case True
  then show ?thesis by simp
next
  case False
  with assms obtain playing
    where "gtk_tree_store_set_playing func m it playing = Inr (m1, it1)"
    by (auto simp: set_playing_flag_def Let_def split: if_splits sum.splits)
  then have "mset (all_rows m1)
             = mset (all_rows (modify_row (\<lambda>r. Row playing (row_page r) (row_children r)) m it))"
    unfolding gtk_tree_store_set_playing_def by (rule all_rows_sort_iter_changed)
  then show ?thesis by (simp add: all_rows_set_playing)
qed

lemma set_playing_source_rows:
  assumes "rb_display_page_model_set_playing_source s source = Some (Inr s')"
  shows "pages s' = pages s \<and> sort_func s' = sort_func s
         \<and> image_mset snd (mset (all_rows (store s'))) = image_mset snd (mset (all_rows (store s)))"
proof (cases "store s = []")
  case True
  with assms show ?thesis
    by (auto simp: rb_display_page_model_set_playing_source_def gtk_tree_model_foreach_write_def)
next
  case False
  let ?f = "set_playing_flag (sort_func s (pages s)) (pages s)"
  from assms False obtain res
    where res: "gtk_tree_model_foreach_helper ?f (store s) [0] source = Some res"
    by (auto simp: rb_display_page_model_set_playing_source_def gtk_tree_model_foreach_write_def
        split: option.splits)
  with assms False obtain stop st d
    where run: "gtk_tree_model_foreach_helper ?f (store s) [0] source = Some (Inr (stop, st, d))"
      and s': "s' = s\<lparr>store := st\<rparr>"
    by (cases res)
      (auto simp: rb_display_page_model_set_playing_source_def gtk_tree_model_foreach_write_def)
  have "image_mset snd (mset (all_rows st)) = image_mset snd (mset (all_rows (store s)))"
    by (rule foreach_helper_preserves
          [where I = "\<lambda>m. image_mset snd (mset (all_rows m)) = image_mset snd (mset (all_rows (store s)))",
           OF _ run])
       (simp_all add: set_playing_flag_rows)
  with s' show ?thesis by simp
qed


subsection \<open>Traversals that leave the rows where they are\<close>

lemma map_playing_map:
  "map_playing g rows
   = map (\<lambda>r. Row (g (row_playing r) (row_page r)) (row_page r) (map_playing g (row_children r))) rows"
proof (induction rows)
  case Nil
  then show ?case by simp
next
  case (Cons r rs)
  then show ?case by (cases r) simp
qed

lemma length_map_playing [simp]: "length (map_playing g rows) = length rows"
  by (subst map_playing_map) simp

lemma nth_map_playing:
  "i < length rows \<Longrightarrow>
   map_playing g rows ! i
   = Row (g (row_playing (rows ! i)) (row_page (rows ! i))) (row_page (rows ! i))
       (map_playing g (row_children (rows ! i)))"
  by (subst map_playing_map) simp

lemma get_row_map_playing:
  "get_row (map_playing g rows) p
   = map_option (\<lambda>r. Row (g (row_playing r) (row_page r)) (row_page r) (map_playing g (row_children r)))
       (get_row rows p)"
proof (induction rows p rule: get_row.induct)
  case (1 rows)
  then show ?case by simp
next
  case (2 rows i)
  then show ?case by (simp add: nth_map_playing)
next
  case (3 rows i v va)
  then show ?case by (simp add: nth_map_playing)
qed

lemma get_page_without_playing [simp]:
  "gtk_tree_model_get_page (without_playing m) p = gtk_tree_model_get_page m p"
  by (simp add: gtk_tree_model_get_page_def without_playing_def get_row_map_playing
      split: option.splits)

lemma has_child_without_playing [simp]:
  "gtk_tree_model_iter_has_child (without_playing m) p = gtk_tree_model_iter_has_child m p"
  by (simp add: gtk_tree_model_iter_has_child_def without_playing_def get_row_map_playing
      split: option.splits)

lemma iter_next_without_playing [simp]:
  "gtk_tree_model_iter_next (without_playing m) p = gtk_tree_model_iter_next m p"
  by (simp add: gtk_tree_model_iter_next_def without_playing_def get_row_map_playing Let_def
      split: option.splits)

lemma n_siblings_without_playing [simp]:
  "n_siblings (without_playing m) p = n_siblings m p"
  by (simp add: n_siblings_def children_at_def without_playing_def get_row_map_playing
      split: option.splits)

lemma valid_without_playing [simp]:
  "get_row (without_playing m) p = None \<longleftrightarrow> get_row m p = None"
  by (simp add: without_playing_def get_row_map_playing)

lemma compare_rows_without_playing:
  "compare_rows collate h (without_playing m) a b = compare_rows collate h m a b"
  unfolding compare_rows_def get_page_without_playing by (rule refl)

lemma in_sorted_position_without_playing:
  assumes "\<And>m a b. func (without_playing m) a b = func m a b"
  shows "in_sorted_position func (without_playing m) iter = in_sorted_position func m iter"
  unfolding in_sorted_position_def n_siblings_without_playing assms by (rule refl)

lemma without_playing_modify_row:
  assumes "\<And>r. row_page (f r) = row_page r \<and> row_children (f r) = row_children r"
  shows "without_playing (modify_row f rows p) = without_playing rows"
  unfolding without_playing_def
proof (induction rows p rule: get_row.induct)
  case (1 rows)
  then show ?case by simp
next
  case (2 rows i)
  show ?case
    by (subst (1 2) map_playing_map) (simp add: map_update assms list_update_same_conv)
next
  case (3 rows i v va)
  show ?case
  proof (cases "i < length rows")
    case True
    with 3 show ?thesis
      by (subst (1 2) map_playing_map) (simp add: map_update list_update_same_conv)
  next
    case False
    then show ?thesis by simp
  qed
qed

lemma rows_in_place_at:
  assumes "rows_in_place s" and "get_row (store s) iter = Some r"
  shows "in_sorted_position (sort_func s (pages s)) (store s) iter = Inr True"
proof -
  from assms(2) obtain j q where "iter = j # q" by (cases iter) auto
  with iters_from_complete [of "store s" j q r 0] assms(2)
  have "iter \<in> set (iters_from 0 (store s))" by simp
  with assms(1) show ?thesis by (simp add: rows_in_place_def list_all_iff)
qed

lemma foreach_paths_append:
  "foreach_paths func (ps @ qs) m d =
     (case foreach_paths func ps m d of
        Inl e \<Rightarrow> Inl e
      | Inr (stop, m', d') \<Rightarrow> if stop then Inr (True, m', d') else foreach_paths func qs m' d')"
proof (induction ps arbitrary: m d)
  case Nil
  then show ?case by simp
next
  case (Cons p ps)
  then show ?case by (simp split: sum.splits prod.splits)
qed

lemma foreach_paths_inv:
  assumes wb: "\<And>m it d. Q m \<Longrightarrow> \<exists>stop m' d'. func m it d = Inr (stop, m', it, d') \<and> Q m'"
  shows "Q m \<Longrightarrow> foreach_paths func ps m d = Inr (stop, m', d') \<Longrightarrow> Q m'"
proof (induction ps arbitrary: m d)
  case Nil
  then show ?case by simp
next
  case (Cons p ps)
  from wb [OF Cons.prems(1), of p d] obtain stop1 m1 d1
    where f: "func m p d = Inr (stop1, m1, p, d1)" and q: "Q m1" by blast
  show ?case
  proof (cases stop1)
    case True
    with Cons.prems(2) f q show ?thesis by simp
  next
    case False
    with Cons.prems(2) f have "foreach_paths func ps m1 d1 = Inr (stop, m', d')" by simp
    from Cons.IH [OF q this] show ?thesis .
  qed
qed

lemma map_append_below: "map ((@) pp) (map ((#) i) qs) = map ((@) (pp @ [i])) qs"
  by (induction qs) simp_all

lemma map_append_Nil: "map ((@) []) qs = qs"
  by (induction qs) simp_all

lemma foreach_helper_in_place:
  assumes wb: "\<And>m it d. Q m \<Longrightarrow> \<exists>stop m' d'. func m it d = Inr (stop, m', it, d') \<and> Q m'"
    and shape: "\<And>m p. Q m \<Longrightarrow>
            gtk_tree_model_iter_has_child m p = gtk_tree_model_iter_has_child m0 p
            \<and> gtk_tree_model_iter_next m p = gtk_tree_model_iter_next m0 p"
  shows "Q m \<Longrightarrow> children_at m0 pp = Some sibs \<Longrightarrow> i < length sibs \<Longrightarrow> drop i sibs = rows \<Longrightarrow>
         gtk_tree_model_foreach_helper func m (pp @ [i]) d
         = Some (foreach_paths func (map ((@) pp) (iters_from i rows)) m d)"
proof (induction i rows arbitrary: m d pp sibs rule: iters_from.induct)
  case (1 i)
  then show ?case by simp
next
  case (2 i playing page children rs)
  note Q = "2.prems"(1) and ch = "2.prems"(2) and lt = "2.prems"(3) and dr = "2.prems"(4)
  let ?it = "pp @ [i]"
  have "sibs ! i # drop (Suc i) sibs = Row playing page children # rs"
    using lt dr by (simp add: Cons_nth_drop_Suc)
  then have row: "sibs ! i = Row playing page children" and rs: "drop (Suc i) sibs = rs"
    by simp_all
  have g: "get_row m0 ?it = Some (Row playing page children)"
    using get_row_of_children_at [OF ch, of i] lt row by simp
  have hc: "gtk_tree_model_iter_has_child m0 ?it = (children \<noteq> [])"
    using g by (simp add: gtk_tree_model_iter_has_child_def)
  have nx: "gtk_tree_model_iter_next m0 ?it
            = (if Suc i < length sibs then Some (pp @ [Suc i]) else None)"
    using get_row_of_children_at [OF ch, of "Suc i"]
    by (simp add: gtk_tree_model_iter_next_def)
  have ch': "children_at m0 ?it = Some children"
    using g by (simp add: children_at_def)
  from wb [OF Q, of ?it d] obtain stop m1 d1
    where f: "func m ?it d = Inr (stop, m1, ?it, d1)" and Q1: "Q m1" by blast
  let ?below = "foreach_paths func (map ((@) ?it) (iters_from 0 children)) m1 d1"
  have below: "(if gtk_tree_model_iter_has_child m1 ?it
                then gtk_tree_model_foreach_helper func m1 (?it @ [0]) d1
                else Some (Inr (False, m1, d1))) = Some ?below"
  proof (cases "children = []")
    case True
    with shape [OF Q1, of ?it] hc show ?thesis by simp
  next
    case False
    then have "gtk_tree_model_foreach_helper func m1 (?it @ [0]) d1 = Some ?below"
      by (intro "2.IH"(1) [OF Q1 ch']) simp_all
    with shape [OF Q1, of ?it] hc False show ?thesis by simp
  qed
  have rest: "(case gtk_tree_model_iter_next m2 ?it of
                 None \<Rightarrow> Some (Inr (False, m2, d2))
               | Some next \<Rightarrow> gtk_tree_model_foreach_helper func m2 next d2)
              = Some (foreach_paths func (map ((@) pp) (iters_from (Suc i) rs)) m2 d2)"
    if Q2: "Q m2" for m2 d2
  proof (cases "Suc i < length sibs")
    case True
    from "2.IH"(2) [OF Q2 ch True rs, of d2] shape [OF Q2, of ?it] nx True
    show ?thesis by simp
  next
    case False
    with rs have "rs = []" by simp
    with shape [OF Q2, of ?it] nx False show ?thesis by simp
  qed
  have ps: "map ((@) pp) (iters_from i (Row playing page children # rs))
            = ?it # map ((@) ?it) (iters_from 0 children) @ map ((@) pp) (iters_from (Suc i) rs)"
    by (simp add: map_append_below)
  show ?case
  proof (cases stop)
    case True
    show ?thesis
      unfolding ps
      by (subst gtk_tree_model_foreach_helper_unfold) (simp add: f True)
  next
    case False
    show ?thesis
    proof (cases ?below)
      case (Inl e)
      from below Inl show ?thesis
        unfolding ps
        by (subst gtk_tree_model_foreach_helper_unfold)
          (simp add: f False foreach_paths_append)
    next
      case (Inr res)
      obtain stop2 m2 d2 where res: "res = (stop2, m2, d2)" by (cases res) auto
      from foreach_paths_inv [of Q func, OF wb Q1 Inr [unfolded res]] have Q2: "Q m2" by simp
      show ?thesis
      proof (cases stop2)
        case True
        from below Inr res True show ?thesis
          unfolding ps
          by (subst gtk_tree_model_foreach_helper_unfold)
            (simp add: f False foreach_paths_append)
      next
        case F2: False
        from below Inr res F2 rest [OF Q2, of d2] show ?thesis
          unfolding ps
          by (subst gtk_tree_model_foreach_helper_unfold)
            (simp add: f False foreach_paths_append)
      qed
    qed
  qed
qed

lemma set_playing_flag_in_place:
  assumes nr: "\<And>m a b. func (without_playing m) a b = func m a b"
    and Q: "without_playing m = without_playing m0"
    and pl: "\<And>r. get_row m0 it = Some r \<Longrightarrow> in_sorted_position func m0 it = Inr True"
  shows "set_playing_flag func h m it source =
     Inr (False,
          modify_row (\<lambda>r. Row (playing_for h source (row_playing r) (row_page r)) (row_page r)
                            (row_children r)) m it,
          it, source)"
proof (cases "get_row m it")
  case None
  have "modify_row (\<lambda>r. Row (playing_for h source (row_playing r) (row_page r)) (row_page r)
                 (row_children r)) m it = m"
    by (rule modify_row_same) (simp add: None)
  then show ?thesis using None
    by (simp add: set_playing_flag_def gtk_tree_model_get_page_def gtk_tree_model_get_playing_def
        RB_IS_SOURCE_def)
next
  case (Some r)
  show ?thesis
  proof (cases "RB_IS_SOURCE h (row_page r) \<and> (row_playing r \<or> row_page r = source)")
    case True
    let ?m1 = "modify_row (\<lambda>x. Row (row_page r = source) (row_page x) (row_children x)) m it"
    from True have "playing_for h source (row_playing r) (row_page r) = (row_page r = source)"
      by (auto simp: playing_for_def)
    then have m1: "modify_row (\<lambda>r. Row (playing_for h source (row_playing r) (row_page r)) (row_page r)
                 (row_children r)) m it = ?m1"
      using Some by (intro modify_row_cong) simp
    have w: "without_playing ?m1 = without_playing m0"
      using Q by (simp add: without_playing_modify_row)
    have "get_row (without_playing m0) it \<noteq> None"
      using Some valid_without_playing [of m it] by (simp add: Q)
    then obtain r0 where "get_row m0 it = Some r0" by auto
    from pl [OF this] have "in_sorted_position func ?m1 it = Inr True"
      using in_sorted_position_without_playing [of func ?m1 it, OF nr]
        in_sorted_position_without_playing [of func m0 it, OF nr]
      by (simp add: w)
    moreover have "get_row ?m1 it \<noteq> None" using get_row_modify_row [OF Some] by simp
    ultimately have "gtk_tree_store_sort_iter_changed func ?m1 it = Inr (?m1, it)"
      by (auto simp: gtk_tree_store_sort_iter_changed_def)
    then show ?thesis using Some True
      by (simp add: m1 set_playing_flag_def gtk_tree_model_get_page_def
          gtk_tree_model_get_playing_def gtk_tree_store_set_playing_def Let_def)
  next
    case False
    then have "playing_for h source (row_playing r) (row_page r) = row_playing r"
      by (auto simp: playing_for_def)
    then have "modify_row (\<lambda>r. Row (playing_for h source (row_playing r) (row_page r)) (row_page r)
                 (row_children r)) m it = m"
      using Some by (intro modify_row_same) simp
    then show ?thesis using Some False
      by (auto simp: set_playing_flag_def gtk_tree_model_get_page_def gtk_tree_model_get_playing_def
          Let_def)
  qed
qed

lemma foreach_paths_set_playing_flag:
  assumes nr: "\<And>m a b. func (without_playing m) a b = func m a b"
    and pl: "\<And>it r. get_row m0 it = Some r \<Longrightarrow> in_sorted_position func m0 it = Inr True"
  shows "without_playing m = without_playing m0 \<Longrightarrow>
         foreach_paths (set_playing_flag func h) ps m source =
           Inr (False,
                foldl (modify_row (\<lambda>r. Row (playing_for h source (row_playing r) (row_page r))
                                          (row_page r) (row_children r))) m ps,
                source)"
proof (induction ps arbitrary: m)
  case Nil
  then show ?case by simp
next
  case (Cons p ps)
  let ?g = "\<lambda>r. Row (playing_for h source (row_playing r) (row_page r)) (row_page r) (row_children r)"
  have "without_playing (modify_row ?g m p) = without_playing m0"
    using Cons.prems by (simp add: without_playing_modify_row)
  from Cons.IH [OF this] set_playing_flag_in_place [of func m m0 p h source, OF nr Cons.prems pl]
  show ?case by simp
qed

lemma set_playing_source_in_place:
  assumes nr: "\<And>m a b. sort_func s (pages s) (without_playing m) a b = sort_func s (pages s) m a b"
    and pl: "rows_in_place s"
  shows "rb_display_page_model_set_playing_source s source =
           Some (Inr (s\<lparr>store := map_playing (playing_for (pages s) source) (store s)\<rparr>))"
proof (cases "store s = []")
  case True
  then show ?thesis
    by (simp add: rb_display_page_model_set_playing_source_def gtk_tree_model_foreach_write_def)
next
  case False
  let ?func = "sort_func s (pages s)"
  let ?f = "set_playing_flag ?func (pages s)"
  let ?Q = "\<lambda>m. without_playing m = without_playing (store s)"
  let ?g = "\<lambda>r. Row (playing_for (pages s) source (row_playing r) (row_page r)) (row_page r)
                   (row_children r)"
  have at: "in_sorted_position ?func (store s) it = Inr True" if "get_row (store s) it = Some r" for it r
    using pl that by (rule rows_in_place_at)
  have wb: "\<exists>stop m' d'. ?f m it d = Inr (stop, m', it, d') \<and> ?Q m'" if "?Q m" for m it d
  proof -
    have "?f m it d = Inr (False, modify_row
            (\<lambda>r. Row (playing_for (pages s) d (row_playing r) (row_page r)) (row_page r)
                   (row_children r)) m it, it, d)"
      by (rule set_playing_flag_in_place [where ?m0.0 = "store s"]) (rule nr, rule that, erule at)
    with that show ?thesis by (auto simp: without_playing_modify_row)
  qed
  have shape: "gtk_tree_model_iter_has_child m p = gtk_tree_model_iter_has_child (store s) p
               \<and> gtk_tree_model_iter_next m p = gtk_tree_model_iter_next (store s) p"
    if "?Q m" for m p
    using has_child_without_playing [of m p] has_child_without_playing [of "store s" p]
      iter_next_without_playing [of m p] iter_next_without_playing [of "store s" p] that
    by simp
  have "gtk_tree_model_foreach_helper ?f (store s) ([] @ [0]) source
        = Some (foreach_paths ?f (map ((@) []) (iters_from 0 (store s))) (store s) source)"
    using False
    by (intro foreach_helper_in_place [where Q = ?Q and ?m0.0 = "store s" and sibs = "store s"]
          wb shape)
      (simp_all add: children_at_def)
  also have "foreach_paths ?f (map ((@) []) (iters_from 0 (store s))) (store s) source
             = Inr (False, foldl (modify_row ?g) (store s) (iters_from 0 (store s)), source)"
    unfolding map_append_Nil
    by (rule foreach_paths_set_playing_flag [where ?m0.0 = "store s"])
      (rule nr, erule at, rule refl)
  also have "foldl (modify_row ?g) (store s) (iters_from 0 (store s))
             = map_playing (playing_for (pages s) source) (store s)"
    using foldl_modify_row_iters [of "[]" 0 "playing_for (pages s) source" "store s"] by simp
  finally show ?thesis
    using False
    by (simp add: rb_display_page_model_set_playing_source_def gtk_tree_model_foreach_write_def)
qed

lemma foreach_paths_read:
  "map_sum id snd
     (foreach_paths (\<lambda>m it d. case func m it d of (stop, m', d') \<Rightarrow> Inr (stop, m', it, d')) ps model d)
   = Inr (foreach_iters func ps model d)"
proof (induction ps arbitrary: model d)
  case Nil
  then show ?case by simp
next
  case (Cons p ps)
  then show ?case by (simp split: prod.splits)
qed

lemma gtk_tree_model_foreach_read:
  assumes "\<And>m it d. fst (snd (func m it d)) = m"
  shows "gtk_tree_model_foreach_write model
           (\<lambda>m it d. case func m it d of (stop, m', d') \<Rightarrow> Inr (stop, m', it, d')) d
         = Some (Inr (gtk_tree_model_foreach model func d))"
proof (cases "model = []")
  case True
  then show ?thesis by (simp add: gtk_tree_model_foreach_write_def gtk_tree_model_foreach_def)
next
  case False
  let ?f = "\<lambda>m it d. case func m it d of (stop, m', d') \<Rightarrow> Inr (stop, m', it, d')"
  have wb: "\<exists>stop m' d'. ?f m it d = Inr (stop, m', it, d') \<and> m' = model" if "m = model" for m it d
    using assms [of m it d] that by (cases "func m it d") auto
  have "gtk_tree_model_foreach_helper ?f model ([] @ [0]) d
        = Some (foreach_paths ?f (map ((@) []) (iters_from 0 model)) model d)"
    using False
    by (intro foreach_helper_in_place [where Q = "\<lambda>m. m = model" and ?m0.0 = model and sibs = model] wb)
      (simp_all add: children_at_def)
  then show ?thesis
    using False foreach_paths_read [of func "iters_from 0 model" model d]
    by (simp add: gtk_tree_model_foreach_write_def gtk_tree_model_foreach_def map_append_Nil)
qed


subsection \<open>What the operations do\<close>

lemma page_type_set_visibility [simp]:
  "page_type (g_object_set_visibility h page v r) = page_type (h r)"
  by (simp add: g_object_set_visibility_def split: option.splits)

lemma RB_IS_SOURCE_set_visibility [simp]:
  "RB_IS_SOURCE (g_object_set_visibility h page v) = RB_IS_SOURCE h"
  by (simp add: RB_IS_SOURCE_def fun_eq_iff split: option.splits)

lemma RB_IS_DISPLAY_PAGE_GROUP_set_visibility [simp]:
  "RB_IS_DISPLAY_PAGE_GROUP (g_object_set_visibility h page v) = RB_IS_DISPLAY_PAGE_GROUP h"
  by (simp add: RB_IS_DISPLAY_PAGE_GROUP_def fun_eq_iff split: option.splits)

lemma RB_IS_SOURCE_cong:
  "(\<And>r. page_type (h' r) = page_type (h r)) \<Longrightarrow> RB_IS_SOURCE h' = RB_IS_SOURCE h"
  by (simp add: RB_IS_SOURCE_def fun_eq_iff split: option.splits)

lemma add_page_top:
  assumes "rb_display_page_model_add_page s (Some pr) None = Inr s'"
  shows "\<exists>n. s' = s\<lparr>pages := g_object_set_visibility (pages s) (Some pr) False,
                     store := insert_at n (Row False (Some pr) []) (store s)\<rparr>"
proof -
  let ?h = "g_object_set_visibility (pages s) (Some pr) False"
  from assms obtain st' iter'
    where set: "gtk_tree_store_set (sort_func s ?h) (store s @ [Row False None []]) [length (store s)]
                  False (Some pr) = Inr (st', iter')"
      and s': "s' = s\<lparr>pages := ?h, store := st'\<rparr>"
    by (auto simp: rb_display_page_model_add_page_def RB_IS_DISPLAY_PAGE_def gtk_tree_store_append_def
        row_has_child_toggled_def Let_def split: sum.splits)
  from store_set_new_top [OF set] s' show ?thesis by auto
qed

lemma add_page_top_clipped:
  assumes "rb_display_page_model_add_page s (Some pr) None = Inr s'"
  shows "\<exists>n \<le> length (store s).
           s' = s\<lparr>pages := g_object_set_visibility (pages s) (Some pr) False,
                   store := insert_at n (Row False (Some pr) []) (store s)\<rparr>"
proof -
  from add_page_top [OF assms] obtain n
    where "s' = s\<lparr>pages := g_object_set_visibility (pages s) (Some pr) False,
                   store := insert_at n (Row False (Some pr) []) (store s)\<rparr>" ..
  then have "s' = s\<lparr>pages := g_object_set_visibility (pages s) (Some pr) False,
                   store := insert_at (min n (length (store s))) (Row False (Some pr) []) (store s)\<rparr>"
    using insert_at_clip [of n "Row False (Some pr) []" "store s"] by simp
  then show ?thesis by (intro exI [of _ "min n (length (store s))"]) simp
qed

lemma add_page_child:
  assumes "rb_display_page_model_add_page s (Some pr) (Some q) = Inr s'"
  shows "\<exists>it r n. get_row (store s) it = Some r \<and> row_page r = Some q
           \<and> s' = s\<lparr>pages := (if row_children r = [] \<and> RB_IS_DISPLAY_PAGE_GROUP (pages s) (Some q)
                               then g_object_set_visibility (pages s) (Some q) True else pages s),
                     store := modify_row (insert_child n (Some pr)) (store s) it\<rparr>"
proof -
  obtain found it where f: "find_in_real_model s (Some q) [] = (found, it)"
    by (cases "find_in_real_model s (Some q) []") auto
  with assms have found: "found"
    by (cases found) (auto simp: rb_display_page_model_add_page_def RB_IS_DISPLAY_PAGE_def)
  with f have f': "find_in_real_model s (Some q) [] = (True, it)" by simp
  from find_in_real_model_True [OF this]
  obtain r where r: "get_row (store s) it = Some r" "row_page r = Some q"
    by blast
  let ?st1 = "modify_row (\<lambda>x. Row (row_playing x) (row_page x) (row_children x @ [Row False None []]))
                (store s) it"
  let ?h = "if row_children r = [] \<and> RB_IS_DISPLAY_PAGE_GROUP (pages s) (Some q)
            then g_object_set_visibility (pages s) (Some q) True else pages s"
  have g1: "get_row ?st1 it = Some (Row (row_playing r) (row_page r) (row_children r @ [Row False None []]))"
    using r(1) by (rule get_row_modify_row)
  have s1: "row_has_child_toggled (s\<lparr>store := ?st1\<rparr>)
              (if gtk_tree_model_iter_has_child (store s) it then None else Some it)
            = s\<lparr>pages := ?h, store := ?st1\<rparr>"
    using r g1
    by (auto simp: row_has_child_toggled_def update_group_visibility_cb_def Let_def
        gtk_tree_model_iter_has_child_def gtk_tree_model_get_page_def)
  from assms obtain st' iter'
    where set: "gtk_tree_store_set (sort_func s ?h) ?st1 (it @ [length (row_children r)])
                  False (Some pr) = Inr (st', iter')"
      and s': "s' = s\<lparr>pages := ?h, store := st'\<rparr>"
    unfolding rb_display_page_model_add_page_def
    using f' r(1)
    by (simp add: RB_IS_DISPLAY_PAGE_def gtk_tree_store_append_def s1
        gtk_tree_model_iter_n_children_def Let_def split: sum.splits) auto
  from store_set_new_child [OF r(1) set] obtain n
    where "st' = modify_row (insert_child n (Some pr)) (store s) it" by blast
  with r s' show ?thesis by blast
qed

lemma remove_page_cases:
  assumes "rb_display_page_model_remove_page s page = Inr s'"
  shows "(\<exists>i. i < length (store s) \<and> row_page (store s ! i) = page
              \<and> store s' = delete_nth i (store s) \<and> pages s' = pages s)
       \<or> (\<exists>pp k prow. get_row (store s) pp = Some prow \<and> k < length (row_children prow)
              \<and> row_page (row_children prow ! k) = page
              \<and> store s' = modify_row (remove_child k) (store s) pp
              \<and> pages s' = (if delete_nth k (row_children prow) = []
                                \<and> RB_IS_DISPLAY_PAGE_GROUP (pages s) (row_page prow)
                             then g_object_set_visibility (pages s) (row_page prow) False
                             else pages s))"
proof -
  obtain found it where f: "find_in_real_model s page [] = (found, it)"
    by (cases "find_in_real_model s page []") auto
  with assms have found: "found"
    by (cases found) (auto simp: rb_display_page_model_remove_page_def)
  with f have "find_in_real_model s page [] = (True, it)" by simp
  from find_in_real_model_True [OF this]
  obtain r where r: "get_row (store s) it = Some r" "row_page r = page"
    by blast
  from r(1) have ne: "it \<noteq> []" by auto
  show ?thesis
  proof (cases "length it \<le> 1")
    case True
    with ne obtain i where i: "it = [i]" by (cases it) auto
    with r have "i < length (store s)" "row_page (store s ! i) = page"
      by (auto split: if_splits)
    moreover have "store s' = delete_nth i (store s)" "pages s' = pages s"
      using assms f found i
      by (auto simp: rb_display_page_model_remove_page_def gtk_tree_store_remove_def
          gtk_tree_model_iter_parent_def row_has_child_toggled_def)
    ultimately show ?thesis by blast
  next
    case False
    with ne obtain pp k where it: "it = pp @ [k]" "pp \<noteq> []"
      by (cases it rule: rev_cases) auto
    from get_row_snoc [OF it(2) r(1) [unfolded it(1)]] obtain prow
      where p: "get_row (store s) pp = Some prow" "k < length (row_children prow)"
        "row_children prow ! k = r" by blast
    let ?st = "modify_row (remove_child k) (store s) pp"
    have g: "get_row ?st pp = Some (remove_child k prow)"
      using p(1) by (rule get_row_modify_row)
    have par: "gtk_tree_model_iter_parent it = Some pp"
      using it False by (simp add: gtk_tree_model_iter_parent_def)
    have rm: "gtk_tree_store_remove (store s) it
              = (?st, if delete_nth k (row_children prow) \<noteq> [] then None else Some pp)"
      using par g it(1)
      by (simp add: gtk_tree_store_remove_def gtk_tree_model_iter_has_child_def remove_child_eq
          Let_def)
    have "store s' = ?st"
      using assms f found rm
      by (auto simp: rb_display_page_model_remove_page_def row_has_child_toggled_def
          update_group_visibility_cb_def Let_def)
    moreover have "pages s' = (if delete_nth k (row_children prow) = []
                                \<and> RB_IS_DISPLAY_PAGE_GROUP (pages s) (row_page prow)
                             then g_object_set_visibility (pages s) (row_page prow) False
                             else pages s)"
      using assms f found rm g
      by (auto simp: rb_display_page_model_remove_page_def row_has_child_toggled_def
          update_group_visibility_cb_def Let_def gtk_tree_model_get_page_def
          gtk_tree_model_iter_has_child_def)
    ultimately show ?thesis using p r(2) by blast
  qed
qed

lemma cells_of_add_page:
  assumes "rb_display_page_model_add_page s page parent = Inr s'" and "RB_IS_DISPLAY_PAGE page"
  shows "mset (cells_of (store s')) = mset (cells_of (store s)) + {#(False, page)#}"
proof -
  from assms(2) obtain pr where pr: "page = Some pr" by (auto simp: RB_IS_DISPLAY_PAGE_def)
  show ?thesis
  proof (cases parent)
    case None
    from add_page_top [OF assms(1) [unfolded pr None]] pr show ?thesis
      by (auto simp: mset_cells_of all_rows_insert_new)
  next
    case (Some q)
    from add_page_child [OF assms(1) [unfolded pr Some]] obtain it r n
      where r: "get_row (store s) it = Some r"
        and st: "store s' = modify_row (insert_child n (Some pr)) (store s) it" by auto
    let ?c = "\<lambda>(playing, page, has_child). (playing, page)"
    have "image_mset ?c (mset (all_rows (store s')) + {#row_info r#})
        = image_mset ?c (mset (all_rows (store s))
            + {#(row_playing r, row_page r, True), (False, Some pr, False)#})"
      unfolding st using all_rows_insert_child [OF r] by simp
    then show ?thesis by (simp add: mset_cells_of row_info_def pr)
  qed
qed

lemma cells_of_remove_page:
  assumes "rb_display_page_model_remove_page s page = Inr s'"
  shows "mset (cells_of (store s')) \<subseteq># mset (cells_of (store s))"
proof -
  let ?c = "\<lambda>(playing, page, has_child). (playing, page)"
  from remove_page_cases [OF assms] show ?thesis
  proof (elim disjE exE conjE)
    fix i
    assume i: "i < length (store s)" and st: "store s' = delete_nth i (store s)"
    have "image_mset ?c (mset (all_rows (store s')) + mset (all_rows [store s ! i]))
          = image_mset ?c (mset (all_rows (store s)))"
      unfolding st using all_rows_delete_nth [OF i] by simp
    then have "mset (cells_of (store s')) + image_mset ?c (mset (all_rows [store s ! i]))
          = mset (cells_of (store s))"
      by (simp add: mset_cells_of)
    then show ?thesis by (metis mset_subset_eq_add_left)
  next
    fix pp k prow
    assume p: "get_row (store s) pp = Some prow" and k: "k < length (row_children prow)"
      and st: "store s' = modify_row (remove_child k) (store s) pp"
    have "image_mset ?c (mset (all_rows (store s')) + {#row_info prow#}
             + mset (all_rows [row_children prow ! k]))
        = image_mset ?c (mset (all_rows (store s))
             + {#(row_playing prow, row_page prow, delete_nth k (row_children prow) \<noteq> [])#})"
      unfolding st using all_rows_remove_child [OF p k] by simp
    then have "mset (cells_of (store s')) + image_mset ?c (mset (all_rows [row_children prow ! k]))
          = mset (cells_of (store s))"
      by (simp add: mset_cells_of row_info_def)
    then show ?thesis by (metis mset_subset_eq_add_left)
  qed
qed

lemma add_page_keeps:
  assumes "rb_display_page_model_add_page s page parent = Inr s'"
  shows "sort_func s' = sort_func s \<and> page_type (pages s' r) = page_type (pages s r)"
proof (cases "RB_IS_DISPLAY_PAGE page")
  case False
  with assms show ?thesis by (simp add: rb_display_page_model_add_page_def)
next
  case True
  then obtain pr where pr: "page = Some pr" by (auto simp: RB_IS_DISPLAY_PAGE_def)
  show ?thesis
  proof (cases parent)
    case None
    from add_page_top [OF assms [unfolded pr None]] show ?thesis by auto
  next
    case (Some q)
    from add_page_child [OF assms [unfolded pr Some]] show ?thesis by auto
  qed
qed

lemma sort_func_row_has_child_toggled [simp]:
  "sort_func (row_has_child_toggled s emitted) = sort_func s"
  by (simp add: row_has_child_toggled_def update_group_visibility_cb_def Let_def
      split: option.splits)

lemma remove_page_keeps:
  assumes "rb_display_page_model_remove_page s page = Inr s'"
  shows "sort_func s' = sort_func s \<and> page_type (pages s' r) = page_type (pages s r)"
proof
  show "sort_func s' = sort_func s"
    using assms
    by (auto simp: rb_display_page_model_remove_page_def split: prod.splits bool.splits)
  show "page_type (pages s' r) = page_type (pages s r)"
    using remove_page_cases [OF assms] by (auto split: if_splits)
qed

lemma apply_operation_keeps:
  assumes "apply_operation s x = Some (Inr s')"
  shows "sort_func s' = sort_func s \<and> page_type (pages s' r) = page_type (pages s r)"
proof (cases x)
  case (AddPage page parent)
  with assms add_page_keeps [of s page parent s' r] show ?thesis by simp
next
  case (RemovePage page)
  with assms remove_page_keeps [of s page s' r] show ?thesis by simp
next
  case (SetPlayingSource source)
  with assms set_playing_source_rows [of s source s'] show ?thesis by simp
qed

lemma apply_operations_keeps:
  "apply_operations s ops = Some (Inr s') \<Longrightarrow>
   sort_func s' = sort_func s \<and> page_type (pages s' r) = page_type (pages s r)"
proof (induction ops arbitrary: s)
  case Nil
  then show ?case by simp
next
  case (Cons x xs)
  from Cons.prems obtain s1 where s1: "apply_operation s x = Some (Inr s1)"
    and rest: "apply_operations s1 xs = Some (Inr s')"
    by (auto split: option.splits sum.splits)
  from Cons.IH [OF rest] apply_operation_keeps [OF s1, of r] show ?case by simp
qed

lemmas operation_simps =
  rb_display_page_model_new_def rb_display_page_model_add_page_def
  rb_display_page_model_remove_page_def rb_display_page_model_set_playing_source_def
  find_in_real_model_def gtk_tree_model_foreach_def match_page_to_iter_def set_playing_flag_def
  gtk_tree_store_append_def gtk_tree_store_remove_def gtk_tree_store_set_def
  gtk_tree_store_set_playing_def gtk_tree_model_get_page_def gtk_tree_model_get_playing_def
  gtk_tree_model_iter_has_child_def gtk_tree_model_iter_n_children_def
  gtk_tree_model_iter_parent_def row_has_child_toggled_def update_group_visibility_cb_def
  g_object_set_visibility_def RB_IS_DISPLAY_PAGE_def RB_IS_DISPLAY_PAGE_GROUP_def RB_IS_SOURCE_def
  delete_nth_def sidebar_pages_def Let_def
  gtk_tree_store_sort_iter_changed_def in_sorted_position_def n_siblings_def children_at_def
  update_children_def insert_at_def gtk_tree_model_foreach_write_def gtk_tree_model_iter_next_def
  gtk_tree_model_foreach_helper_unfold compare_rows_def
  RB_IS_AUTO_PLAYLIST_SOURCE_def RB_IS_STATIC_PLAYLIST_SOURCE_def
  RB_DISPLAY_PAGE_GROUP_CATEGORY_FIXED_def RB_DISPLAY_PAGE_GROUP_CATEGORY_PERSISTENT_def
  RB_DISPLAY_PAGE_GROUP_CATEGORY_REMOVABLE_def RB_DISPLAY_PAGE_GROUP_CATEGORY_TRANSIENT_def

lemma walk_up_top: "walk_up (i # q) = [i]"
proof (induction q arbitrary: i rule: rev_induct)
  case Nil
  show ?case by (simp add: walk_up.simps [of "[i]"] gtk_tree_model_iter_parent_def)
next
  case (snoc x xs)
  show ?case
    using snoc [of i]
    by (simp add: walk_up.simps [of "i # xs @ [x]"] gtk_tree_model_iter_parent_def butlast_append)
qed

lemma run_store:
  assumes "map_option (map_sum id store) run = Some (Inr st)"
  obtains s where "run = Some (Inr s)" and "store s = st"
proof (cases run)
  case None
  with assms show ?thesis by simp
next
  case (Some res)
  with assms that show ?thesis by (cases res) simp_all
qed

text \<open>The sidebar of the examples is the state after a run of the operations.\<close>
lemma sidebar_session_state:
  "apply_operations (rb_display_page_model_new strcmp sidebar_pages) sidebar_session
   = Some (Inr sidebar)"
  by (simp add: sidebar_session_def sidebar_def sidebar_store_def operation_simps walk_up_top
      fun_eq_iff)

lemma sidebar_in_place: "rows_in_place sidebar"
  by (simp add: rows_in_place_def sidebar_def sidebar_store_def operation_simps walk_up_top)

lemma sidebar_session_in_place:
  "played_in_place (rb_display_page_model_new strcmp sidebar_pages) sidebar_session"
  by (simp add: sidebar_session_def operation_simps walk_up_top rows_in_place_def)

lemma listening_session_store:
  "map_option (map_sum id store)
     (apply_operations (rb_display_page_model_new strcmp sidebar_pages) listening_session)
   = Some (Inr [Row False (Some 0) [Row False (Some 2) []], Row False (Some 1) [Row True (Some 5) []]])"
  by (simp add: listening_session_def operation_simps walk_up_top)

lemma listening_session_in_place:
  "played_in_place (rb_display_page_model_new strcmp sidebar_pages) listening_session"
  by (simp add: listening_session_def operation_simps walk_up_top rows_in_place_def)

lemma listening_session_ok:
  "usage_ok (rb_display_page_model_new strcmp sidebar_pages) listening_session"
  by (simp add: listening_session_def operation_simps walk_up_top pages_of_def)


section \<open>The sort function\<close>

lemmas sidebar_simps =
  sidebar_def sidebar_pages_def sidebar_store_def gtk_tree_model_get_page_def
  RB_DISPLAY_PAGE_GROUP_CATEGORY_FIXED_def RB_DISPLAY_PAGE_GROUP_CATEGORY_PERSISTENT_def
  RB_DISPLAY_PAGE_GROUP_CATEGORY_REMOVABLE_def RB_DISPLAY_PAGE_GROUP_CATEGORY_TRANSIENT_def

lemma compare_rows_below_group:
  assumes "gtk_tree_model_get_page model a = Some a_page"
    and "gtk_tree_model_get_page model b = Some b_page"
    and "\<not> (RB_IS_DISPLAY_PAGE_GROUP h (Some a_page) \<and> RB_IS_DISPLAY_PAGE_GROUP h (Some b_page))"
    and "gtk_tree_model_get_page model (walk_up a) = Some group_page"
    and "page_type (h group_page) = DisplayPageGroup category"
  shows "compare_rows collate h model a b =
    (if category = RB_DISPLAY_PAGE_GROUP_CATEGORY_FIXED then Inr (- 1)
     else if category = RB_DISPLAY_PAGE_GROUP_CATEGORY_PERSISTENT then
       (if RB_IS_AUTO_PLAYLIST_SOURCE h a_page \<and> RB_IS_AUTO_PLAYLIST_SOURCE h b_page
        then Inr (collate (name (h a_page)) (name (h b_page)))
        else if RB_IS_STATIC_PLAYLIST_SOURCE h a_page \<and> RB_IS_STATIC_PLAYLIST_SOURCE h b_page
        then Inr (collate (name (h a_page)) (name (h b_page)))
        else if RB_IS_AUTO_PLAYLIST_SOURCE h a_page then Inr (- 1)
        else Inr 1)
     else if category = RB_DISPLAY_PAGE_GROUP_CATEGORY_REMOVABLE
             \<or> category = RB_DISPLAY_PAGE_GROUP_CATEGORY_TRANSIENT
     then Inr (collate (name (h a_page)) (name (h b_page)))
     else Inl AssertionFailed)"
  using assms
  by (auto simp: compare_rows_def RB_IS_DISPLAY_PAGE_GROUP_def Let_def split: page_type.splits)

text \<open>
  C3, as the claim states it, fails for two groups of one category.  Library and Stores are
  both fixed groups: the category of Library is not the smaller one and the result is
  negative, the category of Stores is not the larger one and the result is positive.  The
  names decide.
\<close>
theorem compare_rows_groups_counterexample:
  "gtk_tree_model_get_page sidebar_store [0] = Some 0
   \<and> gtk_tree_model_get_page sidebar_store [1] = Some 11
   \<and> page_type (sidebar_pages 0) = DisplayPageGroup RB_DISPLAY_PAGE_GROUP_CATEGORY_FIXED
   \<and> page_type (sidebar_pages 11) = DisplayPageGroup RB_DISPLAY_PAGE_GROUP_CATEGORY_FIXED
   \<and> compare_rows strcmp sidebar_pages sidebar_store [0] [1] = Inr (- 1)
   \<and> compare_rows strcmp sidebar_pages sidebar_store [1] [0] = Inr 1"
  by (simp add: compare_rows_def sidebar_simps)

text \<open>
  C3, amended.  When both rows hold groups, \<open>compare_rows\<close> compares the categories as
  numbers: it returns \<open>-1\<close> when the first group's category is the smaller one, \<open>1\<close> when
  it is the larger one, and the collation of the two names when the categories are equal.
  So for groups of different categories the result is negative exactly when the first
  category is smaller and positive exactly when it is larger.
\<close>
theorem compare_rows_groups:
  assumes "gtk_tree_model_get_page model a = Some a_page"
    and "gtk_tree_model_get_page model b = Some b_page"
    and "page_type (h a_page) = DisplayPageGroup a_cat"
    and "page_type (h b_page) = DisplayPageGroup b_cat"
  shows "\<exists>ret. compare_rows collate h model a b = Inr ret
           \<and> (a_cat < b_cat \<longrightarrow> ret = - 1)
           \<and> (a_cat > b_cat \<longrightarrow> ret = 1)
           \<and> (a_cat = b_cat \<longrightarrow> ret = collate (name (h a_page)) (name (h b_page)))
           \<and> (a_cat \<noteq> b_cat \<longrightarrow> (ret < 0 \<longleftrightarrow> a_cat < b_cat) \<and> (ret > 0 \<longleftrightarrow> a_cat > b_cat))"
  using assms by (simp add: compare_rows_def)

theorem compare_rows_groups_witness:
  "gtk_tree_model_get_page sidebar_store [2] = Some 1
   \<and> gtk_tree_model_get_page sidebar_store [0] = Some 0
   \<and> page_type (sidebar_pages 1) = DisplayPageGroup 1
   \<and> page_type (sidebar_pages 0) = DisplayPageGroup 0
   \<and> compare_rows strcmp sidebar_pages sidebar_store [2] [0] = Inr 1
   \<and> compare_rows strcmp sidebar_pages sidebar_store [0] [2] = Inr (- 1)
   \<and> gtk_tree_model_get_page sidebar_store [1] = Some 11
   \<and> page_type (sidebar_pages 11) = DisplayPageGroup 0
   \<and> compare_rows strcmp sidebar_pages sidebar_store [0] [1] = Inr (- 1)"
proof -
  have a: "gtk_tree_model_get_page sidebar_store [2] = Some 1"
    and b: "gtk_tree_model_get_page sidebar_store [0] = Some 0"
    and c: "page_type (sidebar_pages 1) = DisplayPageGroup 1"
    and d: "page_type (sidebar_pages 0) = DisplayPageGroup 0"
    and e: "gtk_tree_model_get_page sidebar_store [1] = Some 11"
    and f: "page_type (sidebar_pages 11) = DisplayPageGroup 0"
    by (simp_all add: sidebar_simps)
  have n: "strcmp (name (sidebar_pages 0)) (name (sidebar_pages 11)) = - 1"
    by (simp add: sidebar_pages_def)
  from compare_rows_groups [OF a b c d, of strcmp] compare_rows_groups [OF b a d c, of strcmp]
    compare_rows_groups [OF b e d f, of strcmp] n
  show ?thesis using a b c d e f by auto
qed




text \<open>
  C5, as the claim states it, fails for two groups below a group.  Below Shared, a
  transient group, Devices compared with Library gives \<open>1\<close>, by their categories, while
  the collation of the two names is \<open>-1\<close>.  The store is the one made by adding Shared,
  then Library and Devices below it.
\<close>
theorem compare_rows_groups_below_group_counterexample:
  "gtk_tree_model_get_page groups_below_shared [0, 1] = Some 6
   \<and> gtk_tree_model_get_page groups_below_shared [0, 0] = Some 0
   \<and> gtk_tree_model_get_page groups_below_shared (walk_up [0, 1]) = Some 7
   \<and> page_type (sidebar_pages 7) = DisplayPageGroup RB_DISPLAY_PAGE_GROUP_CATEGORY_TRANSIENT
   \<and> strcmp (name (sidebar_pages 6)) (name (sidebar_pages 0)) = - 1
   \<and> compare_rows strcmp sidebar_pages groups_below_shared [0, 1] [0, 0] = Inr 1
   \<and> map_option (map_sum id store)
       (apply_operations (rb_display_page_model_new strcmp sidebar_pages) groups_added_below_shared)
     = Some (Inr groups_below_shared)"
  by (simp add: groups_added_below_shared_def groups_below_shared_def operation_simps walk_up_top)

text \<open>
  C5, amended.  Under a group of category PERSISTENT an auto playlist compared with a
  static playlist gives \<open>-1\<close> and a static playlist compared with an auto playlist gives
  \<open>1\<close>, so auto playlists sort first; two auto playlists, and two static playlists, are
  ordered by the collation of their names.  Under a group of category REMOVABLE or
  TRANSIENT the result is the collation of the names, for any two rows that are not both
  groups.
\<close>
theorem compare_rows_persistent_removable_transient:
  assumes "gtk_tree_model_get_page model a = Some a_page"
    and "gtk_tree_model_get_page model b = Some b_page"
    and "\<not> (RB_IS_DISPLAY_PAGE_GROUP h (Some a_page) \<and> RB_IS_DISPLAY_PAGE_GROUP h (Some b_page))"
    and "gtk_tree_model_get_page model (walk_up a) = Some group_page"
    and "page_type (h group_page) = DisplayPageGroup category"
  shows "(category = RB_DISPLAY_PAGE_GROUP_CATEGORY_PERSISTENT \<longrightarrow>
            (RB_IS_AUTO_PLAYLIST_SOURCE h a_page \<and> RB_IS_STATIC_PLAYLIST_SOURCE h b_page \<longrightarrow>
               compare_rows collate h model a b = Inr (- 1))
          \<and> (RB_IS_STATIC_PLAYLIST_SOURCE h a_page \<and> RB_IS_AUTO_PLAYLIST_SOURCE h b_page \<longrightarrow>
               compare_rows collate h model a b = Inr 1)
          \<and> (RB_IS_AUTO_PLAYLIST_SOURCE h a_page \<and> RB_IS_AUTO_PLAYLIST_SOURCE h b_page \<longrightarrow>
               compare_rows collate h model a b = Inr (collate (name (h a_page)) (name (h b_page))))
          \<and> (RB_IS_STATIC_PLAYLIST_SOURCE h a_page \<and> RB_IS_STATIC_PLAYLIST_SOURCE h b_page \<longrightarrow>
               compare_rows collate h model a b = Inr (collate (name (h a_page)) (name (h b_page)))))
       \<and> (category = RB_DISPLAY_PAGE_GROUP_CATEGORY_REMOVABLE
            \<or> category = RB_DISPLAY_PAGE_GROUP_CATEGORY_TRANSIENT \<longrightarrow>
            compare_rows collate h model a b = Inr (collate (name (h a_page)) (name (h b_page))))"
  unfolding compare_rows_below_group [OF assms]
  by (auto simp: RB_IS_AUTO_PLAYLIST_SOURCE_def RB_IS_STATIC_PLAYLIST_SOURCE_def
      RB_DISPLAY_PAGE_GROUP_CATEGORY_FIXED_def RB_DISPLAY_PAGE_GROUP_CATEGORY_PERSISTENT_def
      RB_DISPLAY_PAGE_GROUP_CATEGORY_REMOVABLE_def RB_DISPLAY_PAGE_GROUP_CATEGORY_TRANSIENT_def)

theorem compare_rows_persistent_removable_transient_witness:
  "gtk_tree_model_get_page sidebar_store [2, 0] = Some 8
   \<and> gtk_tree_model_get_page sidebar_store [2, 1] = Some 4
   \<and> gtk_tree_model_get_page sidebar_store [2, 2] = Some 5
   \<and> \<not> RB_IS_DISPLAY_PAGE_GROUP sidebar_pages (Some 4)
   \<and> \<not> RB_IS_DISPLAY_PAGE_GROUP sidebar_pages (Some 5)
   \<and> gtk_tree_model_get_page sidebar_store (walk_up [2, 1]) = Some 1
   \<and> gtk_tree_model_get_page sidebar_store (walk_up [2, 2]) = Some 1
   \<and> page_type (sidebar_pages 1) = DisplayPageGroup RB_DISPLAY_PAGE_GROUP_CATEGORY_PERSISTENT
   \<and> RB_IS_AUTO_PLAYLIST_SOURCE sidebar_pages 4
   \<and> RB_IS_AUTO_PLAYLIST_SOURCE sidebar_pages 8
   \<and> RB_IS_STATIC_PLAYLIST_SOURCE sidebar_pages 5
   \<and> compare_rows strcmp sidebar_pages sidebar_store [2, 1] [2, 2] = Inr (- 1)
   \<and> compare_rows strcmp sidebar_pages sidebar_store [2, 2] [2, 1] = Inr 1
   \<and> compare_rows strcmp sidebar_pages sidebar_store [2, 1] [2, 0] = Inr 1
   \<and> gtk_tree_model_get_page sidebar_store [4, 1] = Some 9
   \<and> gtk_tree_model_get_page sidebar_store [4, 0] = Some 10
   \<and> \<not> RB_IS_DISPLAY_PAGE_GROUP sidebar_pages (Some 9)
   \<and> gtk_tree_model_get_page sidebar_store (walk_up [4, 1]) = Some 7
   \<and> page_type (sidebar_pages 7) = DisplayPageGroup RB_DISPLAY_PAGE_GROUP_CATEGORY_TRANSIENT
   \<and> compare_rows strcmp sidebar_pages sidebar_store [4, 1] [4, 0] = Inr 1"
proof -
  have p: "gtk_tree_model_get_page sidebar_store [2, 1] = Some 4"
    "gtk_tree_model_get_page sidebar_store [2, 0] = Some 8"
    "gtk_tree_model_get_page sidebar_store [2, 2] = Some 5"
    "gtk_tree_model_get_page sidebar_store [4, 1] = Some 9"
    "gtk_tree_model_get_page sidebar_store [4, 0] = Some 10"
    and g: "gtk_tree_model_get_page sidebar_store (walk_up [2, 1]) = Some 1"
    "gtk_tree_model_get_page sidebar_store (walk_up [2, 2]) = Some 1"
    "gtk_tree_model_get_page sidebar_store (walk_up [4, 1]) = Some 7"
    by (simp_all add: sidebar_simps walk_up_top)
  have n: "\<not> RB_IS_DISPLAY_PAGE_GROUP sidebar_pages (Some 4)"
    "\<not> RB_IS_DISPLAY_PAGE_GROUP sidebar_pages (Some 5)"
    "\<not> RB_IS_DISPLAY_PAGE_GROUP sidebar_pages (Some 9)"
    by (simp_all add: RB_IS_DISPLAY_PAGE_GROUP_def sidebar_pages_def)
  have n': "\<not> (RB_IS_DISPLAY_PAGE_GROUP sidebar_pages (Some 4)
              \<and> RB_IS_DISPLAY_PAGE_GROUP sidebar_pages (Some 5))"
    "\<not> (RB_IS_DISPLAY_PAGE_GROUP sidebar_pages (Some 5)
              \<and> RB_IS_DISPLAY_PAGE_GROUP sidebar_pages (Some 4))"
    "\<not> (RB_IS_DISPLAY_PAGE_GROUP sidebar_pages (Some 4)
              \<and> RB_IS_DISPLAY_PAGE_GROUP sidebar_pages (Some 8))"
    "\<not> (RB_IS_DISPLAY_PAGE_GROUP sidebar_pages (Some 9)
              \<and> RB_IS_DISPLAY_PAGE_GROUP sidebar_pages (Some 10))"
    using n by simp_all
  have c: "page_type (sidebar_pages 1) = DisplayPageGroup RB_DISPLAY_PAGE_GROUP_CATEGORY_PERSISTENT"
    "page_type (sidebar_pages 7) = DisplayPageGroup RB_DISPLAY_PAGE_GROUP_CATEGORY_TRANSIENT"
    by (simp_all add: sidebar_pages_def)
  have k: "RB_IS_AUTO_PLAYLIST_SOURCE sidebar_pages 4" "RB_IS_AUTO_PLAYLIST_SOURCE sidebar_pages 8"
    "RB_IS_STATIC_PLAYLIST_SOURCE sidebar_pages 5"
    by (simp_all add: RB_IS_AUTO_PLAYLIST_SOURCE_def RB_IS_STATIC_PLAYLIST_SOURCE_def
        sidebar_pages_def)
  have s: "strcmp (name (sidebar_pages 4)) (name (sidebar_pages 8)) = 1"
    "strcmp (name (sidebar_pages 9)) (name (sidebar_pages 10)) = 1"
    by (simp_all add: sidebar_pages_def)
  from compare_rows_persistent_removable_transient [OF p(1) p(3) n'(1) g(1) c(1), of strcmp]
    compare_rows_persistent_removable_transient [OF p(3) p(1) n'(2) g(2) c(1), of strcmp]
    compare_rows_persistent_removable_transient [OF p(1) p(2) n'(3) g(1) c(1), of strcmp]
    compare_rows_persistent_removable_transient [OF p(4) p(5) n'(4) g(3) c(2), of strcmp]
  show ?thesis using p g n c k s by simp
qed


section \<open>Visibility and the filter\<close>

lemma cells_at_here: "length cpre = i \<Longrightarrow> cells_at (cpre @ Row playing page children # rs) [i] = (playing, page)"
  by (auto simp: cells_at_def gtk_tree_model_get_playing_def gtk_tree_model_get_page_def nth_append)

lemma cells_at_below:
  "length cpre = i \<Longrightarrow> q \<noteq> [] \<Longrightarrow> cells_at (cpre @ r # rs) (i # q) = cells_at (row_children r) q"
  by (cases q) (auto simp: cells_at_def gtk_tree_model_get_playing_def gtk_tree_model_get_page_def nth_append)

lemma filter_shown_below:
  "filter (shown vis) (map ((#) i) qs)
   = (if vis [i] then map ((#) i) (filter (shown (\<lambda>q. vis (i # q))) qs) else [])"
  by (induction qs) auto

lemma rows_by_depth_append:
  "rows_by_depth d (xs @ ys) = rows_by_depth d xs @ rows_by_depth d ys"
proof (induction xs)
  case Nil
  then show ?case by simp
next
  case (Cons r rs)
  then show ?case by (cases r) simp
qed

lemma filter_from_rows:
  "length cpre = i \<Longrightarrow>
   rows_by_depth (Suc d) (filter_from vis i rows)
   = map (\<lambda>q. (d + length q, cells_at (cpre @ rows) q)) (filter (shown vis) (iters_from i rows))"
proof (induction vis i rows arbitrary: cpre d rule: filter_from.induct)
  case (1 vis i)
  then show ?case by simp
next
  case (2 vis i playing page children rs)
  let ?m = "cpre @ Row playing page children # rs"
  have rest: "rows_by_depth (Suc d) (filter_from vis (Suc i) rs)
              = map (\<lambda>q. (d + length q, cells_at ?m q)) (filter (shown vis) (iters_from (Suc i) rs))"
    using "2.IH"(2) [of "cpre @ [Row playing page children]" d] "2.prems" by simp
  show ?case
  proof (cases "vis [i]")
    case False
    then show ?thesis using rest by (simp add: filter_shown_below)
  next
    case True
    let ?qs = "filter (shown (\<lambda>q. vis (i # q))) (iters_from 0 children)"
    have "rows_by_depth (Suc (Suc d)) (filter_from (\<lambda>q. vis (i # q)) 0 children)
          = map (\<lambda>q. (Suc d + length q, cells_at children q)) ?qs"
      using "2.IH"(1) [OF True, of "[]" "Suc d"] by simp
    also have "\<dots> = map (\<lambda>q. (d + length q, cells_at ?m q)) (map ((#) i) ?qs)"
    proof -
      have "cells_at children q = cells_at ?m (i # q)" if "q \<in> set ?qs" for q
      proof -
        from that Nil_notin_iters_from [of 0 children] have "q \<noteq> []" by auto
        from cells_at_below [OF "2.prems" this, of "Row playing page children" rs]
        show ?thesis by simp
      qed
      then show ?thesis by (simp add: comp_def)
    qed
    finally have below: "rows_by_depth (Suc (Suc d)) (filter_from (\<lambda>q. vis (i # q)) 0 children)
                         = map (\<lambda>q. (d + length q, cells_at ?m q)) (map ((#) i) ?qs)" .
    show ?thesis
      using True rest below "2.prems"
      by (simp add: filter_shown_below rows_by_depth_append cells_at_here)
  qed
qed

lemma shown_iff: "shown vis p \<longleftrightarrow> (\<forall>n. 0 < n \<and> n \<le> length p \<longrightarrow> vis (take n p))"
proof (induction p arbitrary: vis)
  case Nil
  then show ?case by simp
next
  case (Cons i q)
  show ?case
  proof
    assume a: "shown vis (i # q)"
    show "\<forall>n. 0 < n \<and> n \<le> length (i # q) \<longrightarrow> vis (take n (i # q))"
    proof (intro allI impI)
      fix n assume n: "0 < n \<and> n \<le> length (i # q)"
      then obtain m where m: "n = Suc m" by (cases n) auto
      show "vis (take n (i # q))"
      proof (cases m)
        case 0
        with a m show ?thesis by simp
      next
        case (Suc k)
        with a m n Cons.IH [of "\<lambda>q'. vis (i # q')"] show ?thesis by auto
      qed
    qed
  next
    assume a: "\<forall>n. 0 < n \<and> n \<le> length (i # q) \<longrightarrow> vis (take n (i # q))"
    from a [rule_format, of 1] have h: "vis [i]" by simp
    have "\<forall>n. 0 < n \<and> n \<le> length q \<longrightarrow> vis (i # take n q)"
      using a [rule_format, of "Suc n" for n] by simp
    with Cons.IH [of "\<lambda>q'. vis (i # q')"] h show "shown vis (i # q)" by simp
  qed
qed

text \<open>
  C6, as the claim states it, fails below a row that is not shown.  Music is visible and
  the visible function holds at its row; the row is below the row of Podcasts, which is
  not visible, and the filter model has the row of Library only.
\<close>
theorem is_row_visible_counterexample:
  "(case apply_operations (rb_display_page_model_new strcmp sidebar_pages) page_below_hidden_page of
      Some (Inr s) \<Rightarrow>
        store s = [Row False (Some 0) [Row False (Some 3) [Row False (Some 2) []]]]
        \<and> visibility (pages s 2)
        \<and> rb_display_page_model_is_row_visible (pages s) (store s) [0, 0, 0]
        \<and> filter_model s = [Row False (Some 0) []]
    | _ \<Rightarrow> False)"
  by (simp add: page_below_hidden_page_def operation_simps filter_model_def
      gtk_tree_model_filter_def rb_display_page_model_is_row_visible_def)

text \<open>
  C6, amended.  The visible function of the filter returns TRUE exactly when the row holds
  a page and that page's \<^verbatim>\<open>visibility\<close> is TRUE.  The rows of the filter model are, in
  order and with their depth and cells, the rows of the store for which the visible
  function holds at the row and at every row above it.
\<close>
theorem is_row_visible_iff:
  "(rb_display_page_model_is_row_visible h model iter
      \<longleftrightarrow> (\<exists>page. gtk_tree_model_get_page model iter = Some page \<and> visibility (h page)))
   \<and> rows_by_depth 1 (filter_model s)
       = map (\<lambda>iter. (length iter, cells_at (store s) iter))
           (filter (\<lambda>iter. \<forall>n. 0 < n \<and> n \<le> length iter \<longrightarrow>
                              rb_display_page_model_is_row_visible (pages s) (store s) (take n iter))
              (iters_from 0 (store s)))"
proof
  show "rb_display_page_model_is_row_visible h model iter
      \<longleftrightarrow> (\<exists>page. gtk_tree_model_get_page model iter = Some page \<and> visibility (h page))"
    by (simp add: rb_display_page_model_is_row_visible_def split: option.splits)
  show "rows_by_depth 1 (filter_model s)
       = map (\<lambda>iter. (length iter, cells_at (store s) iter))
           (filter (\<lambda>iter. \<forall>n. 0 < n \<and> n \<le> length iter \<longrightarrow>
                              rb_display_page_model_is_row_visible (pages s) (store s) (take n iter))
              (iters_from 0 (store s)))"
  proof -
    have "shown (rb_display_page_model_is_row_visible (pages s) (store s))
          = (\<lambda>iter. \<forall>n. 0 < n \<and> n \<le> length iter \<longrightarrow>
                              rb_display_page_model_is_row_visible (pages s) (store s) (take n iter))"
      by (rule ext) (rule shown_iff)
    with filter_from_rows [of "[]" 0 0 "rb_display_page_model_is_row_visible (pages s) (store s)" "store s"]
    show ?thesis
      by (simp add: filter_model_def gtk_tree_model_filter_def)
  qed
qed

theorem is_row_visible_iff_witness:
  "rb_display_page_model_is_row_visible sidebar_pages sidebar_store [0, 0]
   \<and> \<not> rb_display_page_model_is_row_visible sidebar_pages sidebar_store [0, 1]
   \<and> rows_by_depth 1 (filter_model sidebar)
     = [(1, False, Some 0), (2, True, Some 2),
        (1, False, Some 1), (2, False, Some 8), (2, False, Some 4), (2, False, Some 5),
        (1, False, Some 7), (2, False, Some 10), (2, False, Some 9)]"
proof -
  let ?vis = "rb_display_page_model_is_row_visible (pages sidebar) (store sidebar)"
  have e: "(\<lambda>iter. \<forall>n. 0 < n \<and> n \<le> length iter \<longrightarrow> ?vis (take n iter)) = shown ?vis"
    by (rule ext) (rule shown_iff [symmetric])
  from is_row_visible_iff [of sidebar_pages sidebar_store "[0, 0]" sidebar]
    is_row_visible_iff [of sidebar_pages sidebar_store "[0, 1]" sidebar]
  show ?thesis
    unfolding e
    by (simp add: sidebar_simps cells_at_def gtk_tree_model_get_playing_def
        rb_display_page_model_is_row_visible_def)
qed

lemma filter_from_all_rows:
  assumes "\<And>j q. j < length rows \<Longrightarrow> vis ((i + j) # q) \<Longrightarrow>
             \<exists>r. get_row rows (j # q) = Some r \<and> Q (row_page r)"
  shows "\<forall>x \<in> set (all_rows (filter_from vis i rows)). Q (fst (snd x))"
  using assms
proof (induction vis i rows rule: filter_from.induct)
  case (1 vis i)
  then show ?case by simp
next
  case (2 vis i playing page children rs)
  have rest: "\<forall>x \<in> set (all_rows (filter_from vis (Suc i) rs)). Q (fst (snd x))"
  proof (rule "2.IH"(2))
    fix j q
    assume "j < length rs" "vis ((Suc i + j) # q)"
    with "2.prems" [of "Suc j" q]
    obtain r where "get_row (Row playing page children # rs) (Suc j # q) = Some r" "Q (row_page r)"
      by auto
    then show "\<exists>r. get_row rs (j # q) = Some r \<and> Q (row_page r)"
      by (cases q) (auto split: if_splits)
  qed
  show ?case
  proof (cases "vis [i]")
    case False
    then show ?thesis using rest by simp
  next
    case True
    have here: "Q page" using "2.prems" [of 0 "[]"] True by simp
    have below: "\<forall>x \<in> set (all_rows (filter_from (\<lambda>q. vis (i # q)) 0 children)). Q (fst (snd x))"
    proof (rule "2.IH"(1) [OF True])
      fix j q
      assume "j < length children" "vis (i # (0 + j) # q)"
      with "2.prems" [of 0 "j # q"]
      show "\<exists>r. get_row children (j # q) = Some r \<and> Q (row_page r)"
        by (auto split: if_splits)
    qed
    show ?thesis using True here below rest by (auto simp: all_rows_append)
  qed
qed

lemma filter_model_visible:
  assumes "get_row (filter_model s) p = Some r"
  shows "\<exists>page. row_page r = Some page \<and> visibility (pages s page)"
proof -
  have "\<forall>x \<in> set (all_rows (filter_model s)).
          (\<lambda>pg. \<exists>page. pg = Some page \<and> visibility (pages s page)) (fst (snd x))"
    unfolding filter_model_def gtk_tree_model_filter_def
    by (rule filter_from_all_rows)
      (auto simp: rb_display_page_model_is_row_visible_def gtk_tree_model_get_page_def
        split: option.splits)
  with get_row_in_all_rows [OF assms] show ?thesis by (auto simp: row_info_def)
qed

text \<open>
  C10.  \<open>rb_display_page_model_find_page\<close> walks the filter model.  For a page whose
  \<^verbatim>\<open>visibility\<close> is FALSE it returns FALSE and does not write the caller's iterator,
  whether or not a row of the store holds the page.
\<close>
theorem find_page_invisible:
  assumes "\<not> visibility (pages s page)"
  shows "rb_display_page_model_find_page s (Some page) iter = (False, iter)"
proof -
  let ?d = "\<lparr>dpi_page = Some page, dpi_iter = [], dpi_found = False\<rparr>"
  let ?m = "filter_model s"
  obtain m d where fe: "foreach_iters match_page_to_iter (iters_from 0 ?m) ?m ?d = (m, d)"
    by (cases "foreach_iters match_page_to_iter (iters_from 0 ?m) ?m ?d") auto
  have "\<not> (\<exists>p \<in> set (iters_from 0 ?m). gtk_tree_model_get_page ?m p = dpi_page ?d)"
  proof
    assume "\<exists>p \<in> set (iters_from 0 ?m). gtk_tree_model_get_page ?m p = dpi_page ?d"
    then obtain p where p: "p \<in> set (iters_from 0 ?m)" "gtk_tree_model_get_page ?m p = Some page"
      by auto
    from iters_from_0_valid [OF p(1)] obtain r where r: "get_row ?m p = Some r" by auto
    with p(2) have "row_page r = Some page" by (simp add: gtk_tree_model_get_page_def)
    with filter_model_visible [OF r] assms show False by simp
  qed
  with foreach_match_page_to_iter [OF fe] have "d = ?d" by simp
  then show ?thesis
    using fe by (simp add: rb_display_page_model_find_page_def gtk_tree_model_foreach_def)
qed

theorem find_page_invisible_witness:
  "\<not> visibility (pages sidebar 3)
   \<and> rb_display_page_model_find_page sidebar (Some 3) [4] = (False, [4])
   \<and> gtk_tree_model_get_page (store sidebar) [0, 1] = Some 3"
proof -
  have a: "\<not> visibility (pages sidebar 3)" by (simp add: sidebar_simps)
  from find_page_invisible [OF a, of "[4]"] a show ?thesis by (simp add: sidebar_simps)
qed


section \<open>Drag and drop\<close>

text \<open>
  C7, as the claim states it, fails for \<^verbatim>\<open>application/x-rhythmbox-source\<close>: the handler
  returns FALSE for it.
\<close>
theorem drag_data_received_source_counterexample:
  "\<not> fst (rb_display_page_model_drag_data_received no_handler sidebar None GTK_TREE_VIEW_DROP_AFTER
            \<lparr>data_type = ''application/x-rhythmbox-source'', data = ''3''\<rparr>)"
  by (simp add: rb_display_page_model_drag_data_received_def gdk_atom_intern_def)

text \<open>
  C7, amended.  The handler accepts a drop (returns TRUE) when the type of the selection
  data is \<^verbatim>\<open>text/uri-list\<close>, \<^verbatim>\<open>application/x-rhythmbox-entry\<close>, \<^verbatim>\<open>text/x-rhythmbox-album\<close>,
  \<^verbatim>\<open>text/x-rhythmbox-artist\<close> or \<^verbatim>\<open>text/x-rhythmbox-genre\<close>; it refuses
  \<^verbatim>\<open>application/x-rhythmbox-source\<close> (returns FALSE).
\<close>
theorem drag_data_received_accepts:
  "(data_type selection_data \<in> {''text/uri-list'', ''application/x-rhythmbox-entry'',
        ''text/x-rhythmbox-album'', ''text/x-rhythmbox-artist'', ''text/x-rhythmbox-genre''}
      \<longrightarrow> fst (rb_display_page_model_drag_data_received drop_received model dest pos selection_data))
   \<and> (data_type selection_data = ''application/x-rhythmbox-source''
      \<longrightarrow> \<not> fst (rb_display_page_model_drag_data_received drop_received model dest pos selection_data))"
  by (auto simp: rb_display_page_model_drag_data_received_def gdk_atom_intern_def Let_def)

theorem drag_data_received_accepts_witness:
  "fst (rb_display_page_model_drag_data_received no_handler sidebar (Some [0, 0])
          GTK_TREE_VIEW_DROP_INTO_OR_BEFORE \<lparr>data_type = ''text/uri-list'', data = ''file:///a.ogg''\<rparr>)
   \<and> \<not> fst (rb_display_page_model_drag_data_received no_handler sidebar (Some [0, 0])
          GTK_TREE_VIEW_DROP_INTO_OR_BEFORE \<lparr>data_type = ''application/x-rhythmbox-source'', data = ''3''\<rparr>)"
  using drag_data_received_accepts [of "\<lparr>data_type = ''text/uri-list'', data = ''file:///a.ogg''\<rparr>"
      no_handler sidebar "Some [0, 0]" GTK_TREE_VIEW_DROP_INTO_OR_BEFORE]
    drag_data_received_accepts [of "\<lparr>data_type = ''application/x-rhythmbox-source'', data = ''3''\<rparr>"
      no_handler sidebar "Some [0, 0]" GTK_TREE_VIEW_DROP_INTO_OR_BEFORE]
  by simp

text \<open>
  C8.  For selection data of any other type than those five the handler returns FALSE,
  emits nothing and leaves the state as it is.
\<close>
theorem drag_data_received_unhandled:
  assumes "data_type selection_data \<notin> {''text/uri-list'', ''application/x-rhythmbox-entry'',
        ''text/x-rhythmbox-album'', ''text/x-rhythmbox-artist'', ''text/x-rhythmbox-genre''}"
  shows "rb_display_page_model_drag_data_received drop_received model dest pos selection_data
         = (False, [], model)"
  using assms
  by (simp add: rb_display_page_model_drag_data_received_def gdk_atom_intern_def Let_def)

theorem drag_data_received_unhandled_witness:
  "''application/x-delete-me'' \<notin> {''text/uri-list'', ''application/x-rhythmbox-entry'',
        ''text/x-rhythmbox-album'', ''text/x-rhythmbox-artist'', ''text/x-rhythmbox-genre''}
   \<and> rb_display_page_model_drag_data_received no_handler sidebar (Some [1])
        GTK_TREE_VIEW_DROP_AFTER \<lparr>data_type = ''application/x-delete-me'', data = []\<rparr>
      = (False, [], sidebar)"
proof -
  have a: "data_type \<lparr>data_type = ''application/x-delete-me'', data = []\<rparr>
           \<notin> {''text/uri-list'', ''application/x-rhythmbox-entry'',
        ''text/x-rhythmbox-album'', ''text/x-rhythmbox-artist'', ''text/x-rhythmbox-genre''}"
    by simp
  from drag_data_received_unhandled [OF a] a show ?thesis by simp
qed

text \<open>C9.  No row can be dragged: the check returns FALSE for every list of paths.\<close>
theorem row_draggable_false: "rb_display_page_model_row_draggable drag_source path_list = False"
  by (simp add: rb_display_page_model_row_draggable_def)


section \<open>The playing flag\<close>

lemma playing_inv_init: "store s = [] \<Longrightarrow> playing_inv s"
  by (simp add: playing_inv_def cells_of_def)

lemma cells_of_set_playing_source:
  assumes "sort_func s = compare_rows collate" and "rows_in_place s"
  shows "\<exists>s'. rb_display_page_model_set_playing_source s source = Some (Inr s')
           \<and> pages s' = pages s
           \<and> cells_of (store s')
             = map (\<lambda>(playing, page). (playing_for (pages s) source playing page, page))
                 (cells_of (store s))"
proof -
  have "rb_display_page_model_set_playing_source s source =
           Some (Inr (s\<lparr>store := map_playing (playing_for (pages s) source) (store s)\<rparr>))"
    by (rule set_playing_source_in_place)
      (simp_all add: assms compare_rows_without_playing)
  then show ?thesis
    by (simp add: all_rows_map_playing cells_of_def split_def)
qed

lemma playing_inv_step:
  assumes inv: "playing_inv s" and step: "apply_operation s x = Some (Inr s')"
    and sf: "sort_func s = compare_rows collate"
    and place: "case x of SetPlayingSource source \<Rightarrow> rows_in_place s | _ \<Rightarrow> True"
  shows "playing_inv s'"
proof -
  have src: "RB_IS_SOURCE (pages s') = RB_IS_SOURCE (pages s)"
    using apply_operation_keeps [OF step] by (intro RB_IS_SOURCE_cong) simp
  from inv obtain source
    where inv: "\<forall>c \<in> set (cells_of (store s)). fst c \<longrightarrow> snd c = source \<and> RB_IS_SOURCE (pages s) (snd c)"
    by (auto simp: playing_inv_def)
  show ?thesis
  proof (cases x)
    case (AddPage page parent)
    show ?thesis
    proof (cases "RB_IS_DISPLAY_PAGE page")
      case False
      with assms AddPage show ?thesis by (simp add: rb_display_page_model_add_page_def)
    next
      case True
      from step AddPage have "rb_display_page_model_add_page s page parent = Inr s'" by simp
      from cells_of_add_page [OF this True]
      have "set_mset (mset (cells_of (store s')))
            = set_mset (mset (cells_of (store s)) + {#(False, page)#})" by simp
      then have "set (cells_of (store s')) = set (cells_of (store s)) \<union> {(False, page)}"
        by simp
      with inv src show ?thesis unfolding playing_inv_def by (intro exI [of _ source]) auto
    qed
  next
    case (RemovePage page)
    with step have "rb_display_page_model_remove_page s page = Inr s'" by simp
    from cells_of_remove_page [OF this]
    have "set (cells_of (store s')) \<subseteq> set (cells_of (store s))"
      by (metis set_mset_mono set_mset_mset)
    with inv src show ?thesis unfolding playing_inv_def by (intro exI [of _ source]) auto
  next
    case (SetPlayingSource new_source)
    with place have "rows_in_place s" by simp
    from cells_of_set_playing_source [OF sf this, of new_source] step SetPlayingSource
    have c: "cells_of (store s')
             = map (\<lambda>(playing, page). (playing_for (pages s) new_source playing page, page))
                 (cells_of (store s))"
      and "pages s' = pages s" by auto
    show ?thesis
      unfolding playing_inv_def c src
      using inv by (intro exI [of _ new_source]) (auto simp: playing_for_def split: if_splits)
  qed
qed

lemma playing_inv_run:
  "playing_inv s \<Longrightarrow> sort_func s = compare_rows collate \<Longrightarrow> played_in_place s ops \<Longrightarrow>
   apply_operations s ops = Some (Inr s') \<Longrightarrow> playing_inv s' \<and> sort_func s' = compare_rows collate"
proof (induction ops arbitrary: s)
  case Nil
  then show ?case by simp
next
  case (Cons x xs)
  from Cons.prems(4) obtain s1 where s1: "apply_operation s x = Some (Inr s1)"
    and rest: "apply_operations s1 xs = Some (Inr s')"
    by (auto split: option.splits sum.splits)
  from Cons.prems(3) s1
  have place: "case x of SetPlayingSource source \<Rightarrow> rows_in_place s | _ \<Rightarrow> True"
    and place': "played_in_place s1 xs" by simp_all
  have "playing_inv s1" using Cons.prems(1) s1 Cons.prems(2) place by (rule playing_inv_step)
  moreover have "sort_func s1 = compare_rows collate"
    using apply_operation_keeps [OF s1] Cons.prems(2) by simp
  ultimately show ?case using place' rest by (rule Cons.IH)
qed

lemma playing_pages_subset:
  assumes "playing_inv s"
  shows "\<exists>source. set (playing_pages (store s)) \<subseteq> {source}"
  using assms by (auto simp: playing_inv_def playing_pages_def)

lemma at_most_one_of_distinct:
  assumes "distinct xs" and "set xs \<subseteq> {a}"
  shows "length xs \<le> 1"
proof -
  have "length xs = card (set xs)" using assms(1) by (simp add: distinct_card)
  also have "\<dots> \<le> card {a}" using assms(2) by (intro card_mono) auto
  finally show ?thesis by simp
qed

lemma distinct_playing_pages:
  assumes "distinct (pages_of model)"
  shows "distinct (playing_pages model)"
proof -
  have "pages_of model = map snd (cells_of model)"
    by (simp add: pages_of_def cells_of_def split_def)
  with assms show ?thesis
    unfolding playing_pages_def by (simp add: distinct_map_filter)
qed

text \<open>
  C1, as the claim states it, fails: \<open>rb_display_page_model_add_page\<close> does not refuse a
  page that a row already holds.  After Music is added twice below Library and made the
  playing source, two rows have PLAYING set; every row was in its sorted position when the
  playing source was set.
\<close>
theorem playing_flag_counterexample:
  "map_option (map_sum id store)
     (apply_operations (rb_display_page_model_new strcmp sidebar_pages) two_rows_of_one_page)
   = Some (Inr [Row False (Some 0) [Row True (Some 2) [], Row True (Some 2) []]])
   \<and> played_in_place (rb_display_page_model_new strcmp sidebar_pages) two_rows_of_one_page"
  by (simp add: two_rows_of_one_page_def operation_simps walk_up_top rows_in_place_def)

text \<open>
  Writing PLAYING re-sorts the row that is written, in the middle of the traversal.  Below
  Playlists the sort function puts neither of Favourites and Music before the other; when
  Favourites is made the playing source after Music, its row moves behind the row of
  Music, the traversal goes on behind it, and the row of Music keeps its flag.  The theorem
  below says nothing about such runs.
\<close>
lemma playing_row_moved_store:
  "map_option (map_sum id store)
     (apply_operations (rb_display_page_model_new strcmp sidebar_pages) playing_row_moved)
   = Some (Inr [Row False (Some 1) [Row True (Some 2) [], Row True (Some 5) []]])
   \<and> \<not> played_in_place (rb_display_page_model_new strcmp sidebar_pages) playing_row_moved"
  by (simp add: playing_row_moved_def operation_simps walk_up_top rows_in_place_def)

text \<open>
  C1, amended.  After every sequence of the three operations on a new model in which every
  row is in its sorted position whenever the playing source is set, the rows with PLAYING
  set all hold one page; so at most one row has PLAYING set whenever no page is held by two
  rows.  \<open>rb_display_page_model_add_page\<close> adds one row, with PLAYING FALSE, and leaves
  the cells of the others; when every row is in its sorted position,
  \<open>rb_display_page_model_set_playing_source\<close> returns and has set PLAYING to TRUE on the
  rows whose page is the given source and is an \<^verbatim>\<open>RBSource\<close>, and to FALSE on all others.
\<close>
theorem playing_flag_invariant:
  assumes "apply_operations (rb_display_page_model_new collate h) ops = Some (Inr s)"
    and "played_in_place (rb_display_page_model_new collate h) ops"
  shows "(\<exists>source. set (playing_pages (store s)) \<subseteq> {source})
       \<and> (distinct (pages_of (store s)) \<longrightarrow> length (playing_pages (store s)) \<le> 1)
       \<and> (\<forall>page parent s'. RB_IS_DISPLAY_PAGE page
             \<and> rb_display_page_model_add_page s page parent = Inr s' \<longrightarrow>
             mset (cells_of (store s')) = mset (cells_of (store s)) + {#(False, page)#})
       \<and> (rows_in_place s \<longrightarrow>
            (\<forall>source. \<exists>s'. rb_display_page_model_set_playing_source s source = Some (Inr s')
               \<and> cells_of (store s')
                 = map (\<lambda>(playing, page). (page = source \<and> RB_IS_SOURCE (pages s) page, page))
                     (cells_of (store s))))"
proof -
  let ?s0 = "rb_display_page_model_new collate h"
  have "playing_inv ?s0" "sort_func ?s0 = compare_rows collate"
    by (simp_all add: playing_inv_init rb_display_page_model_new_def)
  from playing_inv_run [OF this assms(2,1)]
  have inv: "playing_inv s" and sf: "sort_func s = compare_rows collate" by simp_all
  from playing_pages_subset [OF inv] obtain source
    where one: "set (playing_pages (store s)) \<subseteq> {source}" ..
  have c2: "distinct (pages_of (store s)) \<longrightarrow> length (playing_pages (store s)) \<le> 1"
  proof
    assume "distinct (pages_of (store s))"
    then have "distinct (playing_pages (store s))" by (rule distinct_playing_pages)
    then show "length (playing_pages (store s)) \<le> 1" using one by (rule at_most_one_of_distinct)
  qed
  have c3: "\<forall>page parent s'. RB_IS_DISPLAY_PAGE page
             \<and> rb_display_page_model_add_page s page parent = Inr s' \<longrightarrow>
             mset (cells_of (store s')) = mset (cells_of (store s)) + {#(False, page)#}"
    using cells_of_add_page by blast
  have c4: "rows_in_place s \<longrightarrow>
            (\<forall>source. \<exists>s'. rb_display_page_model_set_playing_source s source = Some (Inr s')
               \<and> cells_of (store s')
                 = map (\<lambda>(playing, page). (page = source \<and> RB_IS_SOURCE (pages s) page, page))
                     (cells_of (store s)))"
  proof (intro impI allI)
    fix source'
    assume "rows_in_place s"
    from cells_of_set_playing_source [OF sf this, of source'] obtain s'
      where s': "rb_display_page_model_set_playing_source s source' = Some (Inr s')"
        and c: "cells_of (store s')
                = map (\<lambda>(playing, page). (playing_for (pages s) source' playing page, page))
                    (cells_of (store s))" by blast
    have "map (\<lambda>(playing, page). (playing_for (pages s) source' playing page, page))
            (cells_of (store s))
          = map (\<lambda>(playing, page). (page = source' \<and> RB_IS_SOURCE (pages s) page, page))
              (cells_of (store s))"
      using inv by (fastforce simp: playing_inv_def playing_for_def split: if_splits)
    with s' c show "\<exists>s'. rb_display_page_model_set_playing_source s source' = Some (Inr s')
               \<and> cells_of (store s')
                 = map (\<lambda>(playing, page). (page = source' \<and> RB_IS_SOURCE (pages s) page, page))
                     (cells_of (store s))" by simp
  qed
  from one c2 c3 c4 show ?thesis by blast
qed

theorem playing_flag_invariant_witness:
  "played_in_place (rb_display_page_model_new strcmp sidebar_pages) listening_session
   \<and> (\<exists>s. apply_operations (rb_display_page_model_new strcmp sidebar_pages) listening_session
            = Some (Inr s)
        \<and> store s = [Row False (Some 0) [Row False (Some 2) []],
                     Row False (Some 1) [Row True (Some 5) []]]
        \<and> distinct (pages_of (store s))
        \<and> playing_pages (store s) = [Some 5]
        \<and> length (playing_pages (store s)) \<le> 1)
   \<and> played_in_place (rb_display_page_model_new strcmp sidebar_pages) sidebar_session
   \<and> apply_operations (rb_display_page_model_new strcmp sidebar_pages) sidebar_session
       = Some (Inr sidebar)
   \<and> playing_pages (store sidebar) = [Some 2]
   \<and> rows_in_place sidebar
   \<and> (\<exists>s'. rb_display_page_model_set_playing_source sidebar (Some 5) = Some (Inr s')
          \<and> playing_pages (store s') = [Some 5])"
proof -
  let ?s0 = "rb_display_page_model_new strcmp sidebar_pages"
  from listening_session_store obtain s
    where s: "apply_operations ?s0 listening_session = Some (Inr s)"
      and st: "store s = [Row False (Some 0) [Row False (Some 2) []],
                          Row False (Some 1) [Row True (Some 5) []]]"
    by (rule run_store)
  have d: "distinct (pages_of (store s))" by (simp add: st pages_of_def)
  have p: "playing_pages (store s) = [Some 5]" by (simp add: st playing_pages_def cells_of_def)
  from playing_flag_invariant [OF s listening_session_in_place] d
  have l: "length (playing_pages (store s)) \<le> 1" by blast
  have p2: "playing_pages (store sidebar) = [Some 2]"
    by (simp add: sidebar_def sidebar_store_def playing_pages_def cells_of_def)
  from playing_flag_invariant [OF sidebar_session_state sidebar_session_in_place] sidebar_in_place
  obtain s' where s': "rb_display_page_model_set_playing_source sidebar (Some 5) = Some (Inr s')"
    and c: "cells_of (store s')
            = map (\<lambda>(playing, page). (page = Some 5 \<and> RB_IS_SOURCE (pages sidebar) page, page))
                (cells_of (store sidebar))"
    by blast
  have "playing_pages (store s') = [Some 5]"
    unfolding playing_pages_def c
    by (simp add: sidebar_def sidebar_store_def sidebar_pages_def cells_of_def RB_IS_SOURCE_def)
  with s' have e: "\<exists>s'. rb_display_page_model_set_playing_source sidebar (Some 5) = Some (Inr s')
          \<and> playing_pages (store s') = [Some 5]" by blast
  from listening_session_in_place s st d p l sidebar_session_in_place sidebar_session_state p2
    sidebar_in_place e
  show ?thesis by blast
qed


section \<open>The visibility of groups\<close>

lemma page_visibility_other:
  "page \<noteq> q \<Longrightarrow> page_visibility (g_object_set_visibility h q v) page = page_visibility h page"
  by (auto simp: page_visibility_def g_object_set_visibility_def split: option.splits)

lemma page_visibility_set:
  "page_visibility (g_object_set_visibility h (Some r) v) (Some r) = v"
  by (simp add: page_visibility_def g_object_set_visibility_def)

lemma is_row_visible_page_visibility:
  "rb_display_page_model_is_row_visible h model iter
   = page_visibility h (gtk_tree_model_get_page model iter)"
  by (simp add: rb_display_page_model_is_row_visible_def page_visibility_def)

lemma group_inv_init: "store s = [] \<Longrightarrow> group_inv s"
  by (simp add: group_inv_def groups_once_def groups_shown_def pages_of_def)

lemma group_inv_add_top:
  assumes "group_inv s"
    and "RB_IS_DISPLAY_PAGE_GROUP (pages s) (Some pr) \<longrightarrow> Some pr \<notin> set (pages_of (store s))"
  shows "group_inv (s\<lparr>pages := g_object_set_visibility (pages s) (Some pr) False,
                      store := insert_at n (Row False (Some pr) []) (store s)\<rparr>)"
proof -
  let ?m = "insert_at n (Row False (Some pr) []) (store s)"
  have once: "groups_once (pages s) (store s)" and shown: "groups_shown (pages s) (store s)"
    using assms(1) by (simp_all add: group_inv_def)
  have rows: "mset (all_rows ?m) = mset (all_rows (store s)) + {#(False, Some pr, False)#}"
    by (rule all_rows_insert_new)
  then have "image_mset (\<lambda>x. fst (snd x)) (mset (all_rows ?m))
             = image_mset (\<lambda>x. fst (snd x)) (mset (all_rows (store s)) + {#(False, Some pr, False)#})"
    by simp
  then have pgs: "mset (pages_of ?m) = mset (pages_of (store s)) + {#Some pr#}"
    by (simp add: mset_pages_of)
  from rows have "set_mset (mset (all_rows ?m))
                  = set_mset (mset (all_rows (store s)) + {#(False, Some pr, False)#})" by simp
  then have set: "set (all_rows ?m) = set (all_rows (store s)) \<union> {(False, Some pr, False)}"
    by simp
  have "groups_once (g_object_set_visibility (pages s) (Some pr) False) ?m"
    unfolding groups_once_def
  proof (intro allI impI)
    fix g
    assume "RB_IS_DISPLAY_PAGE_GROUP (g_object_set_visibility (pages s) (Some pr) False) g"
    then have g: "RB_IS_DISPLAY_PAGE_GROUP (pages s) g" by simp
    show "count (mset (pages_of ?m)) g \<le> 1"
    proof (cases "g = Some pr")
      case True
      with g assms(2) have z: "count (mset (pages_of (store s))) g = 0"
        by (simp add: count_eq_zero_iff)
      have "count (mset (pages_of ?m)) g = count (mset (pages_of (store s))) g + count {#Some pr#} g"
        by (simp only: pgs count_union)
      with z True show ?thesis by simp
    next
      case False
      have "count (mset (pages_of ?m)) g = count (mset (pages_of (store s))) g + count {#Some pr#} g"
        by (simp only: pgs count_union)
      with False once g show ?thesis by (simp add: groups_once_def)
    qed
  qed
  moreover have "groups_shown (g_object_set_visibility (pages s) (Some pr) False) ?m"
    unfolding groups_shown_def
  proof (intro ballI impI)
    fix x
    assume x: "x \<in> set (all_rows ?m)"
      and "RB_IS_DISPLAY_PAGE_GROUP (g_object_set_visibility (pages s) (Some pr) False) (fst (snd x))"
    then have g: "RB_IS_DISPLAY_PAGE_GROUP (pages s) (fst (snd x))" by simp
    from x set consider "x \<in> set (all_rows (store s))" | "x = (False, Some pr, False)"
      by auto
    then show "page_visibility (g_object_set_visibility (pages s) (Some pr) False) (fst (snd x))
               = snd (snd x)"
    proof cases
      case 1
      then have "fst (snd x) \<in> set (pages_of (store s))"
        by (auto simp: pages_of_def split_def intro!: image_eqI [where x = x])
      with g assms(2) have "fst (snd x) \<noteq> Some pr" by auto
      with shown 1 g show ?thesis by (simp add: page_visibility_other groups_shown_def)
    next
      case 2
      then show ?thesis by (simp add: page_visibility_set)
    qed
  qed
  ultimately show ?thesis by (simp add: group_inv_def)
qed

lemma group_inv_replace:
  assumes inv: "group_inv s"
    and r: "get_row (store s) p = Some r"
    and in': "(row_playing r, row_page r, c) \<in> set (all_rows model')"
    and rows: "set (all_rows model') \<subseteq> set (all_rows (store s)) \<union> {(row_playing r, row_page r, c)} \<union> N"
    and new: "\<forall>x \<in> N. \<not> RB_IS_DISPLAY_PAGE_GROUP (pages s) (fst (snd x))"
    and pgs: "\<forall>g. RB_IS_DISPLAY_PAGE_GROUP (pages s) g \<longrightarrow>
                count (mset (pages_of model')) g \<le> count (mset (pages_of (store s))) g"
    and heap: "h' = (if toggled \<and> RB_IS_DISPLAY_PAGE_GROUP (pages s) (row_page r)
                     then g_object_set_visibility (pages s) (row_page r) c else pages s)"
    and tog: "\<not> toggled \<Longrightarrow> c = (row_children r \<noteq> [])"
  shows "group_inv (s\<lparr>pages := h', store := model'\<rparr>)"
proof -
  have once: "groups_once (pages s) (store s)" and shown: "groups_shown (pages s) (store s)"
    using inv by (simp_all add: group_inv_def)
  have grp: "RB_IS_DISPLAY_PAGE_GROUP h' = RB_IS_DISPLAY_PAGE_GROUP (pages s)"
    by (simp add: heap)
  have once': "groups_once h' model'"
    unfolding groups_once_def grp using once pgs by (auto simp: groups_once_def intro: le_trans)
  have old: "row_info r \<in> set (all_rows (store s))" using r by (rule get_row_in_all_rows)
  have "groups_shown h' model'"
    unfolding groups_shown_def grp
  proof (intro ballI impI)
    fix x
    assume x: "x \<in> set (all_rows model')" and g: "RB_IS_DISPLAY_PAGE_GROUP (pages s) (fst (snd x))"
    show "page_visibility h' (fst (snd x)) = snd (snd x)"
    proof (cases "fst (snd x) = row_page r")
      case True
      have "count (mset (pages_of model')) (row_page r) \<le> 1"
        using once' g True by (simp add: groups_once_def grp)
      from same_page_same_row [OF this x in'] True
      have xe: "x = (row_playing r, row_page r, c)" by simp
      from g True obtain q where q: "row_page r = Some q"
        by (auto simp: RB_IS_DISPLAY_PAGE_GROUP_def split: option.splits)
      show ?thesis
      proof (cases toggled)
        case True
        with g xe q show ?thesis by (simp add: heap page_visibility_set)
      next
        case False
        from shown old g xe have "page_visibility (pages s) (row_page r) = (row_children r \<noteq> [])"
          by (auto simp: groups_shown_def row_info_def)
        with False tog xe show ?thesis by (simp add: heap)
      qed
    next
      case False
      with x rows new g have "x \<in> set (all_rows (store s))" by auto
      with shown g have "page_visibility (pages s) (fst (snd x)) = snd (snd x)"
        by (simp add: groups_shown_def)
      with False show ?thesis by (simp add: heap page_visibility_other)
    qed
  qed
  with once' show ?thesis by (simp add: group_inv_def)
qed

lemma group_inv_add_child:
  assumes inv: "group_inv s"
    and ng: "\<not> RB_IS_DISPLAY_PAGE_GROUP (pages s) (Some pr)"
    and r: "get_row (store s) it = Some r"
    and q: "row_page r = Some q"
  shows "group_inv (s\<lparr>pages := (if row_children r = [] \<and> RB_IS_DISPLAY_PAGE_GROUP (pages s) (Some q)
                              then g_object_set_visibility (pages s) (Some q) True else pages s),
                      store := modify_row (insert_child n (Some pr)) (store s) it\<rparr>)"
proof (rule group_inv_replace [OF inv r, where c = True and toggled = "row_children r = []"
      and N = "{(False, Some pr, False)}"])
  let ?m = "modify_row (insert_child n (Some pr)) (store s) it"
  have eq: "mset (all_rows ?m) + {#row_info r#}
         = mset (all_rows (store s)) + {#(row_playing r, row_page r, True), (False, Some pr, False)#}"
    using r by (rule all_rows_insert_child)
  have "row_info (insert_child n (Some pr) r) \<in> set (all_rows ?m)"
    using get_row_modify_row [OF r] by (rule get_row_in_all_rows)
  then show "(row_playing r, row_page r, True) \<in> set (all_rows ?m)" by (simp add: row_info_def)
  show "set (all_rows ?m)
        \<subseteq> set (all_rows (store s)) \<union> {(row_playing r, row_page r, True)} \<union> {(False, Some pr, False)}"
    using set_all_rows_from_mset [OF eq] by auto
  show "\<forall>x \<in> {(False, Some pr, False)}. \<not> RB_IS_DISPLAY_PAGE_GROUP (pages s) (fst (snd x))"
    using ng by simp
  have "image_mset (\<lambda>x. fst (snd x)) (mset (all_rows ?m) + {#row_info r#})
        = image_mset (\<lambda>x. fst (snd x)) (mset (all_rows (store s))
            + {#(row_playing r, row_page r, True), (False, Some pr, False)#})"
    by (simp only: eq)
  then have p: "mset (pages_of ?m) = mset (pages_of (store s)) + {#Some pr#}"
    by (simp add: mset_pages_of row_info_def)
  show "\<forall>g. RB_IS_DISPLAY_PAGE_GROUP (pages s) g \<longrightarrow>
          count (mset (pages_of ?m)) g \<le> count (mset (pages_of (store s))) g"
    using ng by (auto simp: p)
  show "(if row_children r = [] \<and> RB_IS_DISPLAY_PAGE_GROUP (pages s) (Some q)
         then g_object_set_visibility (pages s) (Some q) True else pages s)
        = (if row_children r = [] \<and> RB_IS_DISPLAY_PAGE_GROUP (pages s) (row_page r)
           then g_object_set_visibility (pages s) (row_page r) True else pages s)"
    by (simp add: q)
  show "True = (row_children r \<noteq> [])" if "row_children r \<noteq> []" using that by simp
qed

lemma group_inv_remove_child:
  assumes inv: "group_inv s"
    and r: "get_row (store s) pp = Some r"
    and k: "k < length (row_children r)"
  shows "group_inv (s\<lparr>pages := (if delete_nth k (row_children r) = []
                                \<and> RB_IS_DISPLAY_PAGE_GROUP (pages s) (row_page r)
                              then g_object_set_visibility (pages s) (row_page r) False
                              else pages s),
                      store := modify_row (remove_child k) (store s) pp\<rparr>)"
proof (rule group_inv_replace [OF inv r, where c = "delete_nth k (row_children r) \<noteq> []"
      and toggled = "delete_nth k (row_children r) = []" and N = "{}"])
  let ?m = "modify_row (remove_child k) (store s) pp"
  let ?c = "delete_nth k (row_children r) \<noteq> []"
  have eq: "mset (all_rows ?m) + ({#row_info r#} + mset (all_rows [row_children r ! k]))
         = mset (all_rows (store s)) + {#(row_playing r, row_page r, ?c)#}"
    using all_rows_remove_child [OF r k] by (simp add: add.assoc)
  have "row_info (remove_child k r) \<in> set (all_rows ?m)"
    using get_row_modify_row [OF r] by (rule get_row_in_all_rows)
  then show "(row_playing r, row_page r, ?c) \<in> set (all_rows ?m)" by (simp add: row_info_def)
  show "set (all_rows ?m) \<subseteq> set (all_rows (store s)) \<union> {(row_playing r, row_page r, ?c)} \<union> {}"
    using set_all_rows_from_mset [OF eq] by auto
  show "\<forall>x \<in> {}. \<not> RB_IS_DISPLAY_PAGE_GROUP (pages s) (fst (snd x))" by simp
  have "image_mset (\<lambda>x. fst (snd x))
          (mset (all_rows ?m) + ({#row_info r#} + mset (all_rows [row_children r ! k])))
        = image_mset (\<lambda>x. fst (snd x))
          (mset (all_rows (store s)) + {#(row_playing r, row_page r, ?c)#})"
    by (simp only: eq)
  then have "mset (pages_of ?m) + image_mset (\<lambda>x. fst (snd x)) (mset (all_rows [row_children r ! k]))
             = mset (pages_of (store s))"
    by (simp add: mset_pages_of row_info_def)
  then have "mset (pages_of ?m) \<subseteq># mset (pages_of (store s))"
    by (metis mset_subset_eq_add_left)
  then show "\<forall>g. RB_IS_DISPLAY_PAGE_GROUP (pages s) g \<longrightarrow>
          count (mset (pages_of ?m)) g \<le> count (mset (pages_of (store s))) g"
    by (simp add: mset_subset_eq_count)
  show "(if delete_nth k (row_children r) = [] \<and> RB_IS_DISPLAY_PAGE_GROUP (pages s) (row_page r)
         then g_object_set_visibility (pages s) (row_page r) False else pages s)
        = (if delete_nth k (row_children r) = [] \<and> RB_IS_DISPLAY_PAGE_GROUP (pages s) (row_page r)
           then g_object_set_visibility (pages s) (row_page r) ?c else pages s)"
    by simp
  show "?c = (row_children r \<noteq> [])" if "\<not> delete_nth k (row_children r) = []"
    using that k by auto
qed

lemma group_inv_remove_top:
  assumes inv: "group_inv s" and i: "i < length (store s)"
  shows "group_inv (s\<lparr>store := delete_nth i (store s)\<rparr>)"
proof -
  have eq: "mset (all_rows (delete_nth i (store s))) + mset (all_rows [store s ! i])
            = mset (all_rows (store s))"
    using i by (rule all_rows_delete_nth)
  then have sub: "mset (all_rows (delete_nth i (store s))) \<subseteq># mset (all_rows (store s))"
    by (metis mset_subset_eq_add_left)
  then have "set (all_rows (delete_nth i (store s))) \<subseteq> set (all_rows (store s))"
    by (metis set_mset_mono set_mset_mset)
  then have shown: "groups_shown (pages s) (delete_nth i (store s))"
    using inv by (auto simp: group_inv_def groups_shown_def)
  have "mset (pages_of (delete_nth i (store s))) \<subseteq># mset (pages_of (store s))"
    unfolding mset_pages_of using sub by (rule image_mset_subseteq_mono)
  then have "count (mset (pages_of (delete_nth i (store s)))) g
             \<le> count (mset (pages_of (store s))) g" for g
    by (rule mset_subset_eq_count)
  then have "groups_once (pages s) (delete_nth i (store s))"
    using inv by (auto simp: group_inv_def groups_once_def intro: le_trans)
  with shown show ?thesis by (simp add: group_inv_def)
qed

lemma group_inv_cong:
  assumes "group_inv s'" and "store s = store s'" and "pages s = pages s'"
  shows "group_inv s"
  using assms by (simp add: group_inv_def)

lemma group_inv_set_playing_source:
  assumes "group_inv s" and "rb_display_page_model_set_playing_source s source = Some (Inr s')"
  shows "group_inv s'"
proof -
  from set_playing_source_rows [OF assms(2)]
  have h: "pages s' = pages s"
    and rows: "image_mset snd (mset (all_rows (store s'))) = image_mset snd (mset (all_rows (store s)))"
    by simp_all
  from rows have "image_mset fst (image_mset snd (mset (all_rows (store s'))))
                  = image_mset fst (image_mset snd (mset (all_rows (store s))))" by simp
  then have pgs: "mset (pages_of (store s')) = mset (pages_of (store s))"
    by (simp add: mset_pages_of multiset.map_comp comp_def)
  from rows have "set_mset (image_mset snd (mset (all_rows (store s'))))
                  = set_mset (image_mset snd (mset (all_rows (store s))))" by simp
  then have set: "snd ` set (all_rows (store s')) = snd ` set (all_rows (store s))" by simp
  have "groups_shown (pages s) (store s')"
    unfolding groups_shown_def
  proof (intro ballI impI)
    fix x
    assume x: "x \<in> set (all_rows (store s'))"
      and g: "RB_IS_DISPLAY_PAGE_GROUP (pages s) (fst (snd x))"
    from x have "snd x \<in> snd ` set (all_rows (store s'))" by (rule imageI)
    with set obtain y where y: "y \<in> set (all_rows (store s))" "snd y = snd x" by auto
    with assms(1) g show "page_visibility (pages s) (fst (snd x)) = snd (snd x)"
      by (auto simp: group_inv_def groups_shown_def)
  qed
  with assms(1) pgs h show ?thesis by (simp add: group_inv_def groups_once_def)
qed

lemma group_inv_step:
  assumes "group_inv s" and "operation_ok s x" and "apply_operation s x = Some (Inr s')"
  shows "group_inv s'"
proof (cases x)
  case (AddPage page parent)
  with assms(3) have add: "rb_display_page_model_add_page s page parent = Inr s'" by simp
  show ?thesis
  proof (cases page)
    case None
    with add assms(1) show ?thesis
      by (simp add: rb_display_page_model_add_page_def RB_IS_DISPLAY_PAGE_def)
  next
    case (Some pr)
    show ?thesis
    proof (cases parent)
      case None
      from assms(2) AddPage Some
      have "RB_IS_DISPLAY_PAGE_GROUP (pages s) (Some pr) \<longrightarrow> Some pr \<notin> set (pages_of (store s))"
        by simp
      from group_inv_add_top [OF assms(1) this] add_page_top [OF add [unfolded Some None]]
      show ?thesis by auto
    next
      case (Some q)
      from assms(2) AddPage \<open>page = Some pr\<close> Some
      have ng: "\<not> RB_IS_DISPLAY_PAGE_GROUP (pages s) (Some pr)" by auto
      from add_page_child [OF add [unfolded \<open>page = Some pr\<close> Some]] obtain it r n
        where r: "get_row (store s) it = Some r" "row_page r = Some q"
          and s': "s' = s\<lparr>pages := (if row_children r = [] \<and> RB_IS_DISPLAY_PAGE_GROUP (pages s) (Some q)
                               then g_object_set_visibility (pages s) (Some q) True else pages s),
                     store := modify_row (insert_child n (Some pr)) (store s) it\<rparr>"
        by blast
      show ?thesis unfolding s' using assms(1) ng r by (rule group_inv_add_child)
    qed
  qed
next
  case (RemovePage page)
  with assms(3) have "rb_display_page_model_remove_page s page = Inr s'" by simp
  from remove_page_cases [OF this] show ?thesis
  proof (elim disjE exE conjE)
    fix i
    assume i: "i < length (store s)" and s': "store s' = delete_nth i (store s)" "pages s' = pages s"
    from group_inv_remove_top [OF assms(1) i] show ?thesis
      by (rule group_inv_cong) (simp_all add: s')
  next
    fix pp k prow
    assume p: "get_row (store s) pp = Some prow" and k: "k < length (row_children prow)"
      and s': "store s' = modify_row (remove_child k) (store s) pp"
      "pages s' = (if delete_nth k (row_children prow) = []
                      \<and> RB_IS_DISPLAY_PAGE_GROUP (pages s) (row_page prow)
                   then g_object_set_visibility (pages s) (row_page prow) False else pages s)"
    from group_inv_remove_child [OF assms(1) p k] show ?thesis
      by (rule group_inv_cong) (simp_all add: s')
  qed
next
  case (SetPlayingSource source)
  with assms show ?thesis by (auto intro: group_inv_set_playing_source)
qed

lemma group_inv_run:
  "group_inv s \<Longrightarrow> usage_ok s ops \<Longrightarrow> apply_operations s ops = Some (Inr s') \<Longrightarrow> group_inv s'"
proof (induction ops arbitrary: s)
  case Nil
  then show ?case by simp
next
  case (Cons x xs)
  from Cons.prems(3) obtain s1 where s1: "apply_operation s x = Some (Inr s1)"
    and rest: "apply_operations s1 xs = Some (Inr s')"
    by (auto split: option.splits sum.splits)
  from Cons.prems(2) s1 have ok: "operation_ok s x" "usage_ok s1 xs" by simp_all
  from group_inv_step [OF Cons.prems(1) ok(1) s1] have "group_inv s1" .
  from Cons.IH [OF this ok(2) rest] show ?case .
qed

text \<open>
  C2, as the claim states it, fails in two ways.  A group added below another page keeps
  the \<^verbatim>\<open>visibility\<close> it had: Shared, added below Library, is visible and has no child.
  And a group added a second time is hidden again: Library, added again after Music was
  added below it, is hidden and has a child.
\<close>
theorem group_visibility_counterexample:
  "(case apply_operations (rb_display_page_model_new strcmp sidebar_pages) group_below_group of
      Some (Inr s) \<Rightarrow>
        gtk_tree_model_get_page (store s) [0, 0] = Some 7
        \<and> RB_IS_DISPLAY_PAGE_GROUP (pages s) (Some 7)
        \<and> rb_display_page_model_is_row_visible (pages s) (store s) [0, 0]
        \<and> \<not> gtk_tree_model_iter_has_child (store s) [0, 0]
    | _ \<Rightarrow> False)
   \<and> (case apply_operations (rb_display_page_model_new strcmp sidebar_pages) group_added_twice of
      Some (Inr s) \<Rightarrow>
        gtk_tree_model_get_page (store s) [0] = Some 0
        \<and> RB_IS_DISPLAY_PAGE_GROUP (pages s) (Some 0)
        \<and> \<not> rb_display_page_model_is_row_visible (pages s) (store s) [0]
        \<and> gtk_tree_model_iter_has_child (store s) [0]
    | _ \<Rightarrow> False)"
  by (simp add: group_below_group_def group_added_twice_def operation_simps walk_up_top
      rb_display_page_model_is_row_visible_def)

text \<open>
  C2, amended.  After every sequence of the three operations on a new model in which every
  group is added at the top level and only while no row holds it, every row that holds a
  group is visible exactly when it has a child.  A page added at the top level gets a
  top-level row of its own, where the sort function puts it; the row is not visible and
  has no child.
\<close>
theorem group_visibility_invariant:
  assumes "store s0 = []" and "usage_ok s0 ops" and "apply_operations s0 ops = Some (Inr s)"
  shows "(\<forall>iter r. get_row (store s) iter = Some r
             \<and> RB_IS_DISPLAY_PAGE_GROUP (pages s) (row_page r) \<longrightarrow>
             rb_display_page_model_is_row_visible (pages s) (store s) iter
             = gtk_tree_model_iter_has_child (store s) iter)
       \<and> (\<forall>g s'. rb_display_page_model_add_page s (Some g) None = Inr s' \<longrightarrow>
             (\<exists>i \<le> length (store s).
                store s' = insert_at i (Row False (Some g) []) (store s)
                \<and> gtk_tree_model_get_page (store s') [i] = Some g
                \<and> \<not> rb_display_page_model_is_row_visible (pages s') (store s') [i]
                \<and> \<not> gtk_tree_model_iter_has_child (store s') [i]))"
proof (intro conjI allI impI)
  fix iter r
  assume a: "get_row (store s) iter = Some r \<and> RB_IS_DISPLAY_PAGE_GROUP (pages s) (row_page r)"
  have "group_inv s"
    using group_inv_init [OF assms(1)] assms(2,3) by (rule group_inv_run)
  then have "groups_shown (pages s) (store s)" by (simp add: group_inv_def)
  moreover from a have "row_info r \<in> set (all_rows (store s))"
    by (auto intro: get_row_in_all_rows)
  ultimately have "page_visibility (pages s) (row_page r) = (row_children r \<noteq> [])"
    using a by (auto simp: groups_shown_def row_info_def)
  with a show "rb_display_page_model_is_row_visible (pages s) (store s) iter
             = gtk_tree_model_iter_has_child (store s) iter"
    by (simp add: is_row_visible_page_visibility gtk_tree_model_get_page_def
        gtk_tree_model_iter_has_child_def)
next
  fix g s'
  assume "rb_display_page_model_add_page s (Some g) None = Inr s'"
  from add_page_top_clipped [OF this] obtain n
    where n: "n \<le> length (store s)"
      and s': "s' = s\<lparr>pages := g_object_set_visibility (pages s) (Some g) False,
                      store := insert_at n (Row False (Some g) []) (store s)\<rparr>" by blast
  have "insert_at n (Row False (Some g) []) (store s) ! n = Row False (Some g) []"
    using n by (simp add: insert_at_def nth_append)
  moreover have "n < length (insert_at n (Row False (Some g) []) (store s))"
    using n by (simp add: insert_at_def)
  ultimately have "store s' = insert_at n (Row False (Some g) []) (store s)
      \<and> gtk_tree_model_get_page (store s') [n] = Some g
      \<and> \<not> rb_display_page_model_is_row_visible (pages s') (store s') [n]
      \<and> \<not> gtk_tree_model_iter_has_child (store s') [n]"
    by (simp add: s' gtk_tree_model_get_page_def rb_display_page_model_is_row_visible_def
        gtk_tree_model_iter_has_child_def g_object_set_visibility_def)
  with n show "\<exists>i \<le> length (store s).
                store s' = insert_at i (Row False (Some g) []) (store s)
                \<and> gtk_tree_model_get_page (store s') [i] = Some g
                \<and> \<not> rb_display_page_model_is_row_visible (pages s') (store s') [i]
                \<and> \<not> gtk_tree_model_iter_has_child (store s') [i]" by blast
qed

theorem group_visibility_invariant_witness:
  "store (rb_display_page_model_new strcmp sidebar_pages) = []
   \<and> usage_ok (rb_display_page_model_new strcmp sidebar_pages) listening_session
   \<and> (\<exists>s. apply_operations (rb_display_page_model_new strcmp sidebar_pages) listening_session
            = Some (Inr s)
        \<and> get_row (store s) [1] = Some (Row False (Some 1) [Row True (Some 5) []])
        \<and> RB_IS_DISPLAY_PAGE_GROUP (pages s) (Some 1)
        \<and> rb_display_page_model_is_row_visible (pages s) (store s) [1]
        \<and> gtk_tree_model_iter_has_child (store s) [1])"
proof -
  let ?s0 = "rb_display_page_model_new strcmp sidebar_pages"
  have e: "store ?s0 = []" by (simp add: rb_display_page_model_new_def)
  from listening_session_store obtain s
    where s: "apply_operations ?s0 listening_session = Some (Inr s)"
      and st: "store s = [Row False (Some 0) [Row False (Some 2) []],
                          Row False (Some 1) [Row True (Some 5) []]]"
    by (rule run_store)
  have t: "page_type (pages s 1) = page_type (sidebar_pages 1)"
    using apply_operations_keeps [OF s, of 1]
    by (simp add: rb_display_page_model_new_def)
  have g: "RB_IS_DISPLAY_PAGE_GROUP (pages s) (Some 1)"
    using t by (simp add: RB_IS_DISPLAY_PAGE_GROUP_def sidebar_pages_def)
  have r: "get_row (store s) [1] = Some (Row False (Some 1) [Row True (Some 5) []])"
    by (simp add: st)
  have c: "gtk_tree_model_iter_has_child (store s) [1]"
    by (simp add: st gtk_tree_model_iter_has_child_def)
  from group_visibility_invariant [OF e listening_session_ok s] r g
  have "rb_display_page_model_is_row_visible (pages s) (store s) [1]
        = gtk_tree_model_iter_has_child (store s) [1]"
    by (metis row.sel(2))
  with e listening_session_ok s r g c show ?thesis by auto
qed

end
